theory Spec2Isabelle
  imports Main
begin

section \<open>Status codes and identities\<close>

text \<open>
  The status values returned at the boundary of the buffer manager and of the heap-file
  layer (\<open>Status\<close> of error.h). \<open>BADPAGENO\<close>, \<open>NORECORDS\<close>, \<open>ENDOFPAGE\<close> and
  \<open>INVALIDSLOTNO\<close> are the values the file store and the page layer hand back.
\<close>

datatype Status =
    OK | BUFFEREXCEEDED | PAGEPINNED | PAGENOTPINNED | BADBUFFER
  | HASHNOTFOUND | HASHTBLERROR | UNIXERR | FILEEOF | FILEEXISTS
  | BADSCANPARM | INVALIDRECLEN | NOSPACE
  | BADPAGENO | NORECORDS | ENDOFPAGE | INVALIDSLOTNO

text \<open>
  A \<open>File*\<close> is used for its identity only (hash key, comparison): a file object is a
  natural number, and a possibly null pointer is a \<open>File option\<close>.
\<close>

type_synonym File = nat

text \<open>A record is its bytes; \<open>rec.length\<close> is the length of the list.\<close>

type_synonym Record = string

datatype RID = RID int int

fun rid_pageNo :: "RID \<Rightarrow> int" where
  "rid_pageNo (RID p s) = p"

fun rid_slotNo :: "RID \<Rightarrow> int" where
  "rid_slotNo (RID p s) = s"

definition NULLRID :: RID where
  "NULLRID = RID (- 1) (- 1)"

section \<open>Pages\<close>

text \<open>
  Modelled from the spec: the page layer (page.h, page.C) and the header-page struct
  (heapfile.h) are not among the sources. A frame of the pool holds either a slotted data
  page (its slot directory, the link to the next page and its own page number) or a file
  header page. The source reinterprets the bytes of a frame through a pointer cast; the
  model names the two layouts, and a frame read under the other layout reads as the
  zeroed page.
\<close>

record FileHdrPage =
  fileName :: string
  firstPage :: int
  lastPage :: int
  pageCnt :: int
  recCnt :: int

datatype Page =
    DataPage "Record option list" int int
  | HdrPage FileHdrPage

definition zeroPage :: Page where
  "zeroPage = DataPage [] 0 0"

section \<open>The paged file store\<close>

text \<open>
  Modelled from the spec: the file store (\<open>File\<close>, db.C) is an external collaborator with
  \<open>allocatePage\<close>, \<open>disposePage\<close>, \<open>readPage\<close> and \<open>writePage\<close>, the last two a
  byte-exact transfer of one page. The store is a map from (file, page number) to the page
  on disk; a transfer of a page that is not allocated fails with \<open>BADPAGENO\<close>. Every call
  is appended to \<open>ioLog\<close>, so that the number of disk reads and writes of an operation can
  be stated.
\<close>

datatype IoOp = RD File int | WR File int | ALLOC File int | DISPOSE File int

record Disk =
  dpages :: "(File \<times> int) \<rightharpoonup> Page"
  nalloc :: "File \<Rightarrow> int"
  ioLog :: "IoOp list"

definition file_readPage :: "File \<Rightarrow> int \<Rightarrow> Disk \<Rightarrow> Status \<times> Page option \<times> Disk" where
  "file_readPage f p d =
     (let d1 = d\<lparr>ioLog := ioLog d @ [RD f p]\<rparr> in
      case dpages d (f, p) of
        None \<Rightarrow> (BADPAGENO, None, d1)
      | Some pg \<Rightarrow> (OK, Some pg, d1))"

definition file_writePage :: "File \<Rightarrow> int \<Rightarrow> Page \<Rightarrow> Disk \<Rightarrow> Status \<times> Disk" where
  "file_writePage f p pg d =
     (let d1 = d\<lparr>ioLog := ioLog d @ [WR f p]\<rparr> in
      case dpages d (f, p) of
        None \<Rightarrow> (BADPAGENO, d1)
      | Some old \<Rightarrow> (OK, d1\<lparr>dpages := (dpages d)((f, p) \<mapsto> pg)\<rparr>))"

definition file_allocatePage :: "File \<Rightarrow> Disk \<Rightarrow> Status \<times> int \<times> Disk" where
  "file_allocatePage f d =
     (let n = nalloc d f in
      (OK, n, d\<lparr>dpages := (dpages d)((f, n) \<mapsto> zeroPage),
                nalloc := (nalloc d)(f := n + 1),
                ioLog := ioLog d @ [ALLOC f n]\<rparr>))"

definition file_disposePage :: "File \<Rightarrow> int \<Rightarrow> Disk \<Rightarrow> Status \<times> Disk" where
  "file_disposePage f p d =
     (let d1 = d\<lparr>ioLog := ioLog d @ [DISPOSE f p]\<rparr> in
      case dpages d (f, p) of
        None \<Rightarrow> (BADPAGENO, d1)
      | Some old \<Rightarrow> (OK, d1\<lparr>dpages := (dpages d)((f, p) := None)\<rparr>))"

section \<open>Frame descriptors and the residency index\<close>

record BufDesc =
  "file" :: "File option"
  pageNo :: int
  frameNo :: nat
  pinCnt :: int
  dirty :: bool
  valid :: bool
  refbit :: bool

text \<open>
  Modelled from the spec: \<open>BufDesc::Clear\<close> and \<open>BufDesc::Set\<close> live in buf.h, which is
  not among the sources. \<open>Clear()\<close> restores valid = false, pinCnt = 0, dirty = false,
  refbit = 0, file = null and keeps frameNo; the page number it leaves is undefined in the
  spec and is \<open>-1\<close> here, the value \<open>flushFile\<close> writes when it invalidates a frame.
  \<open>Set(file, pageNo)\<close> makes the descriptor (file, pageNo, pinCnt = 1, dirty = false,
  refbit = 1, valid).
\<close>

definition Clear :: "BufDesc \<Rightarrow> BufDesc" where
  "Clear b = b\<lparr>pinCnt := 0, file := None, pageNo := - 1, dirty := False,
               refbit := False, valid := False\<rparr>"

definition Set :: "File \<Rightarrow> int \<Rightarrow> BufDesc \<Rightarrow> BufDesc" where
  "Set filePtr pageNum b = b\<lparr>file := Some filePtr, pageNo := pageNum, pinCnt := 1,
               dirty := False, refbit := True, valid := True\<rparr>"

text \<open>
  Modelled from the spec: the residency index (\<open>BufHashTbl\<close>, bufHash.C) is a map from
  (file, pageNo) to a frame number with unique keys. \<open>lookup\<close> is a pure read that answers
  \<open>HASHNOTFOUND\<close> for an absent key, \<open>insert\<close> fails with \<open>HASHTBLERROR\<close> when the key is
  present, \<open>remove\<close> fails with \<open>HASHNOTFOUND\<close> when it is absent. A null file pointer is
  never a key.
\<close>

type_synonym BufHashTbl = "(File \<times> int) \<rightharpoonup> nat"

definition lookup :: "BufHashTbl \<Rightarrow> File option \<Rightarrow> int \<Rightarrow> Status \<times> nat option" where
  "lookup h fo p =
     (case fo of
        None \<Rightarrow> (HASHNOTFOUND, None)
      | Some f \<Rightarrow> (case h (f, p) of
                    None \<Rightarrow> (HASHNOTFOUND, None)
                  | Some fr \<Rightarrow> (OK, Some fr)))"

definition insert_h :: "BufHashTbl \<Rightarrow> File \<Rightarrow> int \<Rightarrow> nat \<Rightarrow> Status \<times> BufHashTbl" where
  "insert_h h f p fr =
     (case h (f, p) of
        None \<Rightarrow> (OK, h((f, p) \<mapsto> fr))
      | Some old \<Rightarrow> (HASHTBLERROR, h))"

definition remove_h :: "BufHashTbl \<Rightarrow> File option \<Rightarrow> int \<Rightarrow> Status \<times> BufHashTbl" where
  "remove_h h fo p =
     (case fo of
        None \<Rightarrow> (HASHNOTFOUND, h)
      | Some f \<Rightarrow> (case h (f, p) of
                    None \<Rightarrow> (HASHNOTFOUND, h)
                  | Some fr \<Rightarrow> (OK, h((f, p) := None))))"

section \<open>The buffer manager (buf.C)\<close>

text \<open>
  The state of a \<open>BufMgr\<close> object together with the file store its frames refer to.
  \<open>numBufs\<close> is the length of both arrays by construction. A pointer into the pool
  (\<open>&bufPool[frame]\<close>) is the frame number.
\<close>

record BufMgr =
  numBufs :: nat
  bufTable :: "BufDesc list"
  bufPool :: "Page list"
  hashTable :: BufHashTbl
  clockHand :: nat
  disk :: Disk

text \<open>
  The constructor: every descriptor zeroed, invalid and numbered, every frame zeroed, an
  empty index, the clock hand on the last frame.
\<close>

definition BufMgr_new :: "nat \<Rightarrow> Disk \<Rightarrow> BufMgr" where
  "BufMgr_new bufs d =
     \<lparr>numBufs = bufs,
      bufTable = map (\<lambda>i. \<lparr>file = None, pageNo = 0, frameNo = i, pinCnt = 0,
                           dirty = False, valid = False, refbit = False\<rparr>) [0..<bufs],
      bufPool = replicate bufs zeroPage,
      hashTable = Map.empty,
      clockHand = bufs - 1,
      disk = d\<rparr>"

text \<open>
  Modelled from the spec: \<open>advanceClock\<close> (buf.h) advances \<open>clockHand\<close> modulo \<open>numBufs\<close>.
\<close>

definition advanceClock :: "BufMgr \<Rightarrow> BufMgr" where
  "advanceClock s = s\<lparr>clockHand := (clockHand s + 1) mod numBufs s\<rparr>"

text \<open>
  \<open>allocBuf\<close>: the body of \<open>while (true)\<close> with the local counter \<open>numPinnedPages\<close> as
  an argument. The result is the status, the frame written through the reference
  parameter (\<open>None\<close> when the call leaves it untouched) and the new state. The loop has no
  bound of its own, so the function is partial: no value means that the call does not
  return (or dereferences the null file of a valid dirty frame).
\<close>

partial_function (option) allocBuf_loop ::
  "nat \<Rightarrow> BufMgr \<Rightarrow> (Status \<times> nat option \<times> BufMgr) option" where
  "allocBuf_loop numPinnedPages s =
     (if numBufs s = numPinnedPages then Some (BUFFEREXCEEDED, None, s)
      else
        let s1 = advanceClock s;
            h = clockHand s1;
            curBuffer = bufTable s1 ! h;
            curPage = bufPool s1 ! h
        in
          if \<not> valid curBuffer then
            Some (OK, Some (frameNo curBuffer),
                  s1\<lparr>bufTable := (bufTable s1)[h := Clear curBuffer]\<rparr>)
          else if refbit curBuffer then
            allocBuf_loop numPinnedPages
              (s1\<lparr>bufTable := (bufTable s1)[h := curBuffer\<lparr>refbit := False\<rparr>]\<rparr>)
          else if pinCnt curBuffer > 0 then
            allocBuf_loop (numPinnedPages + 1) s1
          else if dirty curBuffer \<and> file curBuffer = None then None
          else
            let (wret, d) =
                  (if dirty curBuffer
                   then file_writePage (the (file curBuffer)) (pageNo curBuffer) curPage (disk s1)
                   else (OK, disk s1))
            in
              if wret \<noteq> OK then Some (UNIXERR, None, s1\<lparr>disk := d\<rparr>)
              else
                let (ret, ht) = remove_h (hashTable s1) (file curBuffer) (pageNo curBuffer);
                    s2 = s1\<lparr>disk := d, hashTable := ht\<rparr>
                in
                  if ret \<noteq> OK then Some (ret, None, s2)
                  else Some (OK, Some (frameNo curBuffer),
                             s2\<lparr>bufTable := (bufTable s2)[h := Clear curBuffer]\<rparr>))"

declare allocBuf_loop.simps [code]

definition allocBuf :: "BufMgr \<Rightarrow> (Status \<times> nat option \<times> BufMgr) option" where
  "allocBuf s = allocBuf_loop 0 s"

text \<open>
  \<open>disposePage\<close>: clears the frame of a resident page whatever its pin count, removes the
  mapping (the status of the removal is overwritten) and returns the status of the file
  store.
\<close>

definition disposePage :: "File \<Rightarrow> int \<Rightarrow> BufMgr \<Rightarrow> Status \<times> BufMgr" where
  "disposePage f pNo s =
     (let (status, fr) = lookup (hashTable s) (Some f) pNo;
          s1 = (case fr of
                  Some frameNum \<Rightarrow>
                    (if status = OK
                     then s\<lparr>bufTable := (bufTable s)[frameNum := Clear (bufTable s ! frameNum)]\<rparr>
                     else s)
                | None \<Rightarrow> s);
          (status2, ht) = remove_h (hashTable s1) (Some f) pNo;
          (dret, d) = file_disposePage f pNo (disk s1)
      in (dret, s1\<lparr>hashTable := ht, disk := d\<rparr>))"

text \<open>
  \<open>readPage\<close>: the page pointer returned through the reference parameter is the number of
  the frame it points into.
\<close>

definition readPage :: "File \<Rightarrow> int \<Rightarrow> BufMgr \<Rightarrow> (Status \<times> nat option \<times> BufMgr) option" where
  "readPage f pNo s =
     (let (getRet, fr) = lookup (hashTable s) (Some f) pNo in
      if getRet = HASHNOTFOUND then
        (case allocBuf s of
           None \<Rightarrow> None
         | Some (allocBufRet, afr, s1) \<Rightarrow>
             if allocBufRet \<noteq> OK then Some (allocBufRet, None, s1)
             else
               (case afr of
                  None \<Rightarrow> None
                | Some frame \<Rightarrow>
                    let (readRet, pg, d) = file_readPage f pNo (disk s1) in
                    (case pg of
                       None \<Rightarrow>
                         (let (dret, s2) = disposePage f pNo (s1\<lparr>disk := d\<rparr>)
                          in Some (readRet, None, s2))
                     | Some content \<Rightarrow>
                         if readRet \<noteq> OK then
                           (let (dret, s2) = disposePage f pNo (s1\<lparr>disk := d\<rparr>)
                            in Some (readRet, None, s2))
                         else
                           let s2 = s1\<lparr>disk := d, bufPool := (bufPool s1)[frame := content]\<rparr>;
                               (insertRet, ht) = insert_h (hashTable s2) f pNo frame;
                               s3 = s2\<lparr>hashTable := ht\<rparr>
                           in
                             if insertRet \<noteq> OK then Some (insertRet, Some frame, s3)
                             else
                               Some (OK, Some frame,
                                     s3\<lparr>bufTable := (bufTable s3)
                                           [frame := (Set f pNo (bufTable s3 ! frame))
                                                       \<lparr>frameNo := frame\<rparr>]\<rparr>))))
      else if getRet = HASHTBLERROR then Some (HASHTBLERROR, None, s)
      else
        (case fr of
           None \<Rightarrow> None
         | Some frame \<Rightarrow>
             let curBuffer = bufTable s ! frame in
             Some (OK, Some frame,
                   s\<lparr>bufTable := (bufTable s)
                         [frame := curBuffer\<lparr>refbit := True, pinCnt := pinCnt curBuffer + 1\<rparr>]\<rparr>)))"

definition unPinPage :: "File \<Rightarrow> int \<Rightarrow> bool \<Rightarrow> BufMgr \<Rightarrow> Status \<times> BufMgr" where
  "unPinPage f pNo dirtyArg s =
     (let (getRet, fr) = lookup (hashTable s) (Some f) pNo in
      if getRet \<noteq> OK then (getRet, s)
      else
        (case fr of
           None \<Rightarrow> (getRet, s)
         | Some frame \<Rightarrow>
             let curBuffer = bufTable s ! frame in
             if pinCnt curBuffer = 0 then (PAGENOTPINNED, s)
             else
               let b1 = (if dirtyArg then curBuffer\<lparr>dirty := True\<rparr> else curBuffer);
                   b2 = b1\<lparr>pinCnt := pinCnt b1 - 1\<rparr>
               in (OK, s\<lparr>bufTable := (bufTable s)[frame := b2]\<rparr>)))"

text \<open>
  \<open>allocPage\<close>: the results are the new page number and the frame the page pointer points
  into.
\<close>

definition allocPage :: "File \<Rightarrow> BufMgr \<Rightarrow> (Status \<times> (int \<times> nat) option \<times> BufMgr) option" where
  "allocPage f s =
     (let (allocPageRet, pageNum, d) = file_allocatePage f (disk s);
          s0 = s\<lparr>disk := d\<rparr>
      in
        if allocPageRet \<noteq> OK then Some (allocPageRet, None, s0)
        else
          (case allocBuf s0 of
             None \<Rightarrow> None
           | Some (allocBufRet, afr, s1) \<Rightarrow>
               if allocBufRet \<noteq> OK then Some (allocBufRet, None, s1)
               else
                 (case afr of
                    None \<Rightarrow> None
                  | Some frame \<Rightarrow>
                      let (insertRet, ht) = insert_h (hashTable s1) f pageNum frame;
                          s2 = s1\<lparr>hashTable := ht\<rparr>
                      in
                        if insertRet \<noteq> OK then Some (insertRet, None, s2)
                        else
                          Some (OK, Some (pageNum, frame),
                                s2\<lparr>bufTable := (bufTable s2)
                                      [frame := Set f pageNum (bufTable s2 ! frame)]\<rparr>))))"

text \<open>
  \<open>flushFile\<close>: the \<open>for\<close> loop over the frames, as a recursion over the list of frame
  numbers still to visit.
\<close>

fun flushFile_loop :: "File \<Rightarrow> nat list \<Rightarrow> BufMgr \<Rightarrow> Status \<times> BufMgr" where
  "flushFile_loop f [] s = (OK, s)"
| "flushFile_loop f (i # rest) s =
     (let tmpbuf = bufTable s ! i in
      if valid tmpbuf \<and> file tmpbuf = Some f then
        if pinCnt tmpbuf > 0 then (PAGEPINNED, s)
        else
          let (status, d) =
                (if dirty tmpbuf
                 then file_writePage f (pageNo tmpbuf) (bufPool s ! i) (disk s)
                 else (OK, disk s))
          in
            if status \<noteq> OK then (status, s\<lparr>disk := d\<rparr>)
            else
              let b1 = (if dirty tmpbuf then tmpbuf\<lparr>dirty := False\<rparr> else tmpbuf);
                  (rret, ht) = remove_h (hashTable s) (Some f) (pageNo b1);
                  b2 = b1\<lparr>file := None, pageNo := - 1, valid := False\<rparr>
              in flushFile_loop f rest
                   (s\<lparr>disk := d, hashTable := ht, bufTable := (bufTable s)[i := b2]\<rparr>)
      else if \<not> valid tmpbuf \<and> file tmpbuf = Some f then (BADBUFFER, s)
      else flushFile_loop f rest s)"

definition flushFile :: "File \<Rightarrow> BufMgr \<Rightarrow> Status \<times> BufMgr" where
  "flushFile f s = flushFile_loop f [0..<numBufs s] s"

section \<open>Invariants of the buffer manager\<close>

text \<open>
  The shape the constructor establishes: both arrays have \<open>numBufs\<close> entries and every
  descriptor carries its own index.
\<close>

definition wf_bufs :: "BufMgr \<Rightarrow> bool" where
  "wf_bufs s \<longleftrightarrow>
     length (bufTable s) = numBufs s \<and> length (bufPool s) = numBufs s
     \<and> (\<forall>i<numBufs s. frameNo (bufTable s ! i) = i)"

text \<open>
  Coherence of the residency index and the frame table: every valid frame has an index
  entry under its (file, pageNo) that maps to its frame number, and every index entry
  refers to a valid frame whose file and page number are the key.
\<close>

definition coherent :: "BufMgr \<Rightarrow> bool" where
  "coherent s \<longleftrightarrow>
     (\<forall>i<numBufs s. valid (bufTable s ! i) \<longrightarrow>
        (\<exists>f. file (bufTable s ! i) = Some f
           \<and> hashTable s (f, pageNo (bufTable s ! i)) = Some (frameNo (bufTable s ! i))))
     \<and> (\<forall>f p fr. hashTable s (f, p) = Some fr \<longrightarrow>
          fr < numBufs s \<and> valid (bufTable s ! fr)
          \<and> file (bufTable s ! fr) = Some f \<and> pageNo (bufTable s ! fr) = p)"

definition pins_nonneg :: "BufMgr \<Rightarrow> bool" where
  "pins_nonneg s \<longleftrightarrow> (\<forall>i<numBufs s. 0 \<le> pinCnt (bufTable s ! i))"

text \<open>Two descriptors that differ at most in the reference bit.\<close>

definition eq_upto_refbit :: "BufDesc \<Rightarrow> BufDesc \<Rightarrow> bool" where
  "eq_upto_refbit a b \<longleftrightarrow> a\<lparr>refbit := False\<rparr> = b\<lparr>refbit := False\<rparr>"

text \<open>The calls of \<open>file->readPage\<close> in a log of the file store.\<close>

fun isRD :: "IoOp \<Rightarrow> bool" where
  "isRD (RD f p) = True"
| "isRD x = False"

definition reads :: "Disk \<Rightarrow> IoOp list" where
  "reads d = filter isRD (ioLog d)"

text \<open>
  What a call of \<open>allocBuf\<close> that returns does to the state \<open>s\<close>: the pool and the sizes
  stay and no page is read; without a frame the status is an error, the index stays and
  the descriptors change in their reference bits only; with a frame the status is \<open>OK\<close>, the frame is
  cleared and the other descriptors change in their reference bits only. \<open>victim_post\<close>
  says what happened to the chosen frame: when it was valid it was not pinned, its index
  entry is removed and its page was written (by one logged write) if it was dirty; when it was invalid, index
  and file store are untouched.
\<close>

definition victim_post :: "BufMgr \<Rightarrow> nat \<Rightarrow> BufMgr \<Rightarrow> bool" where
  "victim_post s frame s' =
     (let b = bufTable s ! frame in
      if valid b then
        pinCnt b \<le> 0
        \<and> (\<exists>f. file b = Some f
             \<and> hashTable s (f, pageNo b) \<noteq> None
             \<and> hashTable s' = (hashTable s)((f, pageNo b) := None)
             \<and> (if dirty b
                 then dpages (disk s')
                        = (dpages (disk s))((f, pageNo b) \<mapsto> bufPool s ! frame)
                      \<and> dpages (disk s) (f, pageNo b) \<noteq> None
                      \<and> ioLog (disk s') = ioLog (disk s) @ [WR f (pageNo b)]
                 else disk s' = disk s))
      else hashTable s' = hashTable s \<and> disk s' = disk s)"

definition allocBuf_post :: "BufMgr \<Rightarrow> Status \<times> nat option \<times> BufMgr \<Rightarrow> bool" where
  "allocBuf_post s r =
     (case r of (st, fr, s') \<Rightarrow>
        numBufs s' = numBufs s \<and> bufPool s' = bufPool s
        \<and> length (bufTable s') = length (bufTable s)
        \<and> reads (disk s') = reads (disk s)
        \<and> (case fr of
             None \<Rightarrow>
               st \<noteq> OK \<and> hashTable s' = hashTable s
               \<and> (\<forall>i<numBufs s. eq_upto_refbit (bufTable s ! i) (bufTable s' ! i))
           | Some frame \<Rightarrow>
               st = OK \<and> frame < numBufs s
               \<and> (\<forall>i<numBufs s. i \<noteq> frame \<longrightarrow>
                     eq_upto_refbit (bufTable s ! i) (bufTable s' ! i))
               \<and> bufTable s' ! frame = Clear (bufTable s ! frame)
               \<and> victim_post s frame s'))"

text \<open>
  The two ways in which \<open>readPage(f, p)\<close> returns \<open>OK\<close> from the state \<open>s\<close> with the
  frame \<open>k\<close> and the state \<open>s'\<close>. On a hit nothing changes but the reference bit and the
  pin count of the frame that holds the page. On a miss \<open>allocBuf\<close> returned the frame
  in a state \<open>s1\<close>, and the page read from the file is in the frame, the index maps the
  page to the frame and the descriptor is set.
\<close>

definition readPage_hit :: "File \<Rightarrow> int \<Rightarrow> BufMgr \<Rightarrow> nat \<Rightarrow> BufMgr \<Rightarrow> bool" where
  "readPage_hit f p s k s' \<longleftrightarrow>
     hashTable s (f, p) = Some k
     \<and> s' = s\<lparr>bufTable := (bufTable s)
               [k := (bufTable s ! k)\<lparr>refbit := True, pinCnt := pinCnt (bufTable s ! k) + 1\<rparr>]\<rparr>"

definition readPage_miss :: "File \<Rightarrow> int \<Rightarrow> BufMgr \<Rightarrow> nat \<Rightarrow> BufMgr \<Rightarrow> bool" where
  "readPage_miss f p s k s' \<longleftrightarrow>
     hashTable s (f, p) = None
     \<and> (\<exists>s1 content.
           allocBuf s = Some (OK, Some k, s1)
           \<and> dpages (disk s1) (f, p) = Some content
           \<and> hashTable s1 (f, p) = None
           \<and> numBufs s' = numBufs s1 \<and> clockHand s' = clockHand s1
           \<and> disk s' = (disk s1)\<lparr>ioLog := ioLog (disk s1) @ [RD f p]\<rparr>
           \<and> bufPool s' = (bufPool s1)[k := content]
           \<and> hashTable s' = (hashTable s1)((f, p) \<mapsto> k)
           \<and> bufTable s' = (bufTable s1)
                 [k := \<lparr>file = Some f, pageNo = p, frameNo = k, pinCnt = 1,
                        dirty = False, valid = True, refbit = True\<rparr>])"

section \<open>What one frame contributes to flushFile\<close>

text \<open>
  \<open>flush_verdict f s i\<close> is the status with which \<open>flushFile(f)\<close> stops when it visits
  frame \<open>i\<close> in the state \<open>s\<close>, if it stops there: \<open>PAGEPINNED\<close> for a valid pinned frame
  of the file, the write error for a valid dirty frame of the file whose page the file
  store does not accept, \<open>BADBUFFER\<close> for an invalid frame whose file field is the file.
  \<open>flushFrame f i s\<close> is the state after the visit when it does not stop: a valid frame of
  the file is written back if dirty, its index entry removed and the descriptor
  invalidated; any other frame is left alone.
\<close>

definition flush_verdict :: "File \<Rightarrow> BufMgr \<Rightarrow> nat \<Rightarrow> Status option" where
  "flush_verdict f s i =
     (let b = bufTable s ! i in
      if valid b \<and> file b = Some f then
        (if pinCnt b > 0 then Some PAGEPINNED
         else if dirty b \<and> dpages (disk s) (f, pageNo b) = None then Some BADPAGENO
         else None)
      else if \<not> valid b \<and> file b = Some f then Some BADBUFFER
      else None)"

definition flushFrame :: "File \<Rightarrow> nat \<Rightarrow> BufMgr \<Rightarrow> BufMgr" where
  "flushFrame f i s =
     (let b = bufTable s ! i in
      if valid b \<and> file b = Some f then
        s\<lparr>disk := (if dirty b
                    then snd (file_writePage f (pageNo b) (bufPool s ! i) (disk s))
                    else disk s),
          hashTable := snd (remove_h (hashTable s) (Some f) (pageNo b)),
          bufTable := (bufTable s)
             [i := (if dirty b then b\<lparr>dirty := False\<rparr> else b)
                     \<lparr>file := None, pageNo := - 1, valid := False\<rparr>]\<rparr>
      else s)"

text \<open>
  \<open>flush_stop f i s\<close> is the state in which \<open>flushFile(f)\<close> returns when it stops at frame
  \<open>i\<close> in the state \<open>s\<close>: the state \<open>s\<close> itself, but for the file store after the attempt
  to write when the frame is a dirty frame of the file that is not pinned.
\<close>

definition flush_stop :: "File \<Rightarrow> nat \<Rightarrow> BufMgr \<Rightarrow> BufMgr" where
  "flush_stop f i s =
     (let b = bufTable s ! i in
      if valid b \<and> file b = Some f \<and> \<not> pinCnt b > 0 \<and> dirty b
      then s\<lparr>disk := snd (file_writePage f (pageNo b) (bufPool s ! i) (disk s))\<rparr>
      else s)"

section \<open>Sequences of calls\<close>

text \<open>
  A client's call of one of the operations of the buffer manager, and the state after a
  sequence of calls, whatever status each of them returns. There is no state when one of
  the calls does not return.
\<close>

datatype BufOp =
    CallReadPage File int
  | CallAllocPage File
  | CallUnPinPage File int bool
  | CallDisposePage File int
  | CallFlushFile File
  | CallAllocBuf

fun doOp :: "BufOp \<Rightarrow> BufMgr \<Rightarrow> (Status \<times> BufMgr) option" where
  "doOp (CallReadPage f p) s =
     (case readPage f p s of None \<Rightarrow> None | Some (st, fr, s') \<Rightarrow> Some (st, s'))"
| "doOp (CallAllocPage f) s =
     (case allocPage f s of None \<Rightarrow> None | Some (st, r, s') \<Rightarrow> Some (st, s'))"
| "doOp (CallUnPinPage f p d) s = Some (unPinPage f p d s)"
| "doOp (CallDisposePage f p) s = Some (disposePage f p s)"
| "doOp (CallFlushFile f) s = Some (flushFile f s)"
| "doOp CallAllocBuf s =
     (case allocBuf s of None \<Rightarrow> None | Some (st, fr, s') \<Rightarrow> Some (st, s'))"

fun runOps :: "BufOp list \<Rightarrow> BufMgr \<Rightarrow> BufMgr option" where
  "runOps [] s = Some s"
| "runOps (c # cs) s =
     (case doOp c s of None \<Rightarrow> None | Some (st, s') \<Rightarrow> runOps cs s')"

section \<open>Dirty pages\<close>

text \<open>
  \<open>dirty_page f p s\<close>: page \<open>p\<close> of file \<open>f\<close> is resident in a frame whose dirty bit is set.
  \<open>written_back f p s s'\<close>: between the states \<open>s\<close> and \<open>s'\<close> the file store was asked to
  write page \<open>p\<close> of file \<open>f\<close>, and in \<open>s'\<close> the page on disk has the content that the frame
  of the page had in \<open>s\<close>.
\<close>

definition dirty_page :: "File \<Rightarrow> int \<Rightarrow> BufMgr \<Rightarrow> bool" where
  "dirty_page f p s =
     (case hashTable s (f, p) of
        None \<Rightarrow> False
      | Some k \<Rightarrow> dirty (bufTable s ! k))"

definition written_back :: "File \<Rightarrow> int \<Rightarrow> BufMgr \<Rightarrow> BufMgr \<Rightarrow> bool" where
  "written_back f p s s' =
     (case hashTable s (f, p) of
        None \<Rightarrow> False
      | Some k \<Rightarrow>
          WR f p \<in> set (drop (length (ioLog (disk s))) (ioLog (disk s')))
          \<and> dpages (disk s') (f, p) = Some (bufPool s ! k))"

section \<open>The page layer\<close>

text \<open>
  Modelled from the spec: the page layer (page.C) is not among the sources; the heap file
  needs \<open>firstRecord\<close>, \<open>nextRecord\<close>, \<open>getRecord\<close>, \<open>insertRecord\<close>,
  \<open>deleteRecord\<close>, \<open>getNextPage\<close>, \<open>setNextPage\<close> and \<open>init\<close>, with record
  identifiers that are stable within a page. A data page is its slot directory (a slot is
  a record or empty), its next-page link and its own page number; the RID of a record is
  (own page number, slot index). \<open>nextRecord\<close> answers with the first occupied slot after
  the slot of the given RID, so that \<open>NULLRID\<close> (slot \<open>-1\<close>) is followed by the first
  record. The records of a page and four bytes of directory for every slot but the
  first (which belongs to the fixed part of the page) share \<open>PAGESIZE - DPFIXED\<close> bytes,
  so that a record of \<open>PAGESIZE - DPFIXED\<close> bytes, the longest that \<open>insertRecord\<close> of
  the heap file accepts, fits on an empty page; the two constants have the values of
  minirel's page.h.
\<close>

definition PAGESIZE :: nat where
  "PAGESIZE = 1024"

definition DPFIXED :: nat where
  "DPFIXED = 20"

fun slotsOf :: "Page \<Rightarrow> Record option list" where
  "slotsOf (DataPage sl nx own) = sl"
| "slotsOf (HdrPage h) = []"

fun nextPageOf :: "Page \<Rightarrow> int" where
  "nextPageOf (DataPage sl nx own) = nx"
| "nextPageOf (HdrPage h) = 0"

fun ownPageNo :: "Page \<Rightarrow> int" where
  "ownPageNo (DataPage sl nx own) = own"
| "ownPageNo (HdrPage h) = 0"

definition firstRecord :: "Page \<Rightarrow> Status \<times> RID option" where
  "firstRecord pg =
     (case find (\<lambda>i. slotsOf pg ! i \<noteq> None) [0..<length (slotsOf pg)] of
        None \<Rightarrow> (NORECORDS, None)
      | Some i \<Rightarrow> (OK, Some (RID (ownPageNo pg) (int i))))"

definition nextRecord :: "Page \<Rightarrow> RID \<Rightarrow> Status \<times> RID option" where
  "nextRecord pg curRid =
     (case find (\<lambda>i. rid_slotNo curRid < int i \<and> slotsOf pg ! i \<noteq> None)
             [0..<length (slotsOf pg)] of
        None \<Rightarrow> (ENDOFPAGE, None)
      | Some i \<Rightarrow> (OK, Some (RID (ownPageNo pg) (int i))))"

definition getRecord :: "Page \<Rightarrow> RID \<Rightarrow> Status \<times> Record option" where
  "getRecord pg rid =
     (if 0 \<le> rid_slotNo rid \<and> nat (rid_slotNo rid) < length (slotsOf pg)
      then (case slotsOf pg ! nat (rid_slotNo rid) of
              None \<Rightarrow> (INVALIDSLOTNO, None)
            | Some r \<Rightarrow> (OK, Some r))
      else (INVALIDSLOTNO, None))"

definition usedBytes :: "Page \<Rightarrow> nat" where
  "usedBytes pg = sum_list (map (\<lambda>sl. 4 + (case sl of None \<Rightarrow> 0 | Some r \<Rightarrow> length r))
                              (slotsOf pg))"

definition page_insertRecord :: "Page \<Rightarrow> Record \<Rightarrow> Status \<times> RID option \<times> Page" where
  "page_insertRecord pg r =
     (let sl = slotsOf pg in
      case find (\<lambda>i. sl ! i = None) [0..<length sl] of
        Some i \<Rightarrow>
          if usedBytes pg + length r \<le> PAGESIZE - DPFIXED + 4
          then (OK, Some (RID (ownPageNo pg) (int i)),
                DataPage (sl[i := Some r]) (nextPageOf pg) (ownPageNo pg))
          else (NOSPACE, None, pg)
      | None \<Rightarrow>
          if usedBytes pg + length r + 4 \<le> PAGESIZE - DPFIXED + 4
          then (OK, Some (RID (ownPageNo pg) (int (length sl))),
                DataPage (sl @ [Some r]) (nextPageOf pg) (ownPageNo pg))
          else (NOSPACE, None, pg))"

definition page_deleteRecord :: "Page \<Rightarrow> RID \<Rightarrow> Status \<times> Page" where
  "page_deleteRecord pg rid =
     (if fst (getRecord pg rid) = OK
      then (OK, DataPage ((slotsOf pg)[nat (rid_slotNo rid) := None]) (nextPageOf pg) (ownPageNo pg))
      else (INVALIDSLOTNO, pg))"

definition getNextPage :: "Page \<Rightarrow> Status \<times> int" where
  "getNextPage pg = (OK, nextPageOf pg)"

definition setNextPage :: "int \<Rightarrow> Page \<Rightarrow> Page" where
  "setNextPage n pg = DataPage (slotsOf pg) n (ownPageNo pg)"

definition page_init :: "int \<Rightarrow> Page \<Rightarrow> Page" where
  "page_init pNo pg = DataPage [] (- 1) pNo"

text \<open>The header view of a frame, and an update of the header through the pointer.\<close>

fun hdrOf :: "Page \<Rightarrow> FileHdrPage" where
  "hdrOf (HdrPage h) = h"
| "hdrOf (DataPage sl nx own) =
     \<lparr>fileName = [], firstPage = 0, lastPage = 0, pageCnt = 0, recCnt = 0\<rparr>"

definition updFrame :: "nat \<Rightarrow> (Page \<Rightarrow> Page) \<Rightarrow> BufMgr \<Rightarrow> BufMgr" where
  "updFrame fr g bm = bm\<lparr>bufPool := (bufPool bm)[fr := g (bufPool bm ! fr)]\<rparr>"

section \<open>Heap files and scans (heapfile.C)\<close>

text \<open>
  The members of \<open>HeapFile\<close>; a page pointer is the number of the frame it points into,
  and \<open>curPage\<close> may be null. \<open>HeapFileScan\<close> adds the predicate of the scan and the
  mark; the members \<open>length\<close>, \<open>type\<close>, \<open>filter\<close> and \<open>op\<close> carry the suffix \<open>_s\<close>.
  \<open>InsertFileScan\<close> adds no member. The buffer manager is the global \<open>bufMgr\<close>, passed
  and returned by every operation.
\<close>

datatype Datatype = STRING | INTEGER | FLOAT | OtherDatatype nat

datatype Operator = LT | LTE | EQ | GTE | GT | NE | OtherOperator nat

record HeapFile =
  filePtr :: File
  headerPage :: nat
  headerPageNo :: int
  hdrDirtyFlag :: bool
  curPage :: "nat option"
  curPageNo :: int
  curDirtyFlag :: bool
  curRec :: RID

record HeapFileScan = HeapFile +
  offset_s :: int
  length_s :: int
  type_s :: Datatype
  filter_s :: "string option"
  op_s :: Operator
  markedPageNo :: int
  markedRec :: RID

text \<open>\<open>sizeof(int)\<close> and \<open>sizeof(float)\<close> of the platform.\<close>

definition sizeof_int :: int where
  "sizeof_int = 4"

definition sizeof_float :: int where
  "sizeof_float = 4"

definition startScan ::
  "int \<Rightarrow> int \<Rightarrow> Datatype \<Rightarrow> string option \<Rightarrow> Operator \<Rightarrow> HeapFileScan
   \<Rightarrow> Status \<times> HeapFileScan" where
  "startScan offset' length' type' filter' op' hs =
     (case filter' of
        None \<Rightarrow> (OK, hs\<lparr>filter_s := None\<rparr>)
      | Some flt \<Rightarrow>
          if (offset' < 0 \<or> length' < 1)
             \<or> (type' \<noteq> STRING \<and> type' \<noteq> INTEGER \<and> type' \<noteq> FLOAT)
             \<or> ((type' = INTEGER \<and> length' \<noteq> sizeof_int)
                 \<or> (type' = FLOAT \<and> length' \<noteq> sizeof_float))
             \<or> (op' \<noteq> LT \<and> op' \<noteq> LTE \<and> op' \<noteq> EQ \<and> op' \<noteq> GTE \<and> op' \<noteq> GT \<and> op' \<noteq> NE)
          then (BADSCANPARM, hs)
          else (OK, hs\<lparr>offset_s := offset', length_s := length', type_s := type',
                        filter_s := Some flt, op_s := op'\<rparr>))"

text \<open>
  \<open>matchRec\<close>. The test \<open>offset + length - 1 >= rec.length\<close> is computed in 32-bit
  integers (with wrap-around). The source computes a float \<open>diff\<close> and compares it with
  zero; only its sign is used, or the fact that it is not a number, and \<open>diff\<close> is
  \<open>Some\<close> of an integer with that sign, or \<open>None\<close> for not a number: every comparison
  of a NaN with zero is false but \<open>!=\<close>. For \<open>INTEGER\<close> the sign is that of the 32-bit
  difference of the two little-endian integers (with wrap-around), for \<open>STRING\<close> that of
  \<open>strncmp\<close>. The floating-point subtraction of the \<open>FLOAT\<close> case is a parameter
  \<open>fdiff\<close> that gives the sign of the difference, or \<open>None\<close>, from the two byte strings.
\<close>

fun le_bytes :: "string \<Rightarrow> int" where
  "le_bytes [] = 0"
| "le_bytes (c # cs) = int (of_char c) + 256 * le_bytes cs"

definition to_int32 :: "int \<Rightarrow> int" where
  "to_int32 x = (x + 2147483648) mod 4294967296 - 2147483648"

fun strncmp :: "string \<Rightarrow> string \<Rightarrow> nat \<Rightarrow> int" where
  "strncmp a b 0 = 0"
| "strncmp a b (Suc n) =
     (let x = (case a of [] \<Rightarrow> (0::nat) | c # cs \<Rightarrow> of_char c);
          y = (case b of [] \<Rightarrow> (0::nat) | c # cs \<Rightarrow> of_char c)
      in if x \<noteq> y then int x - int y
         else if x = 0 then 0
         else strncmp (tl a) (tl b) n)"

definition matchRec ::
  "(string \<Rightarrow> string \<Rightarrow> int option) \<Rightarrow> HeapFileScan \<Rightarrow> Record \<Rightarrow> bool" where
  "matchRec fdiff hs rec =
     (case filter_s hs of
        None \<Rightarrow> True
      | Some flt \<Rightarrow>
          if to_int32 (offset_s hs + length_s hs - 1) \<ge> int (length rec) then False
          else
            let attr = drop (nat (offset_s hs)) rec;
                n = nat (length_s hs);
                diff = (case type_s hs of
                          INTEGER \<Rightarrow> Some (to_int32 (to_int32 (le_bytes (take n attr))
                                                      - to_int32 (le_bytes (take n flt))))
                        | FLOAT \<Rightarrow> fdiff (take n attr) (take n flt)
                        | STRING \<Rightarrow> Some (strncmp attr flt n)
                        | OtherDatatype k \<Rightarrow> Some 0)
            in (case op_s hs of
                  LT \<Rightarrow> (case diff of None \<Rightarrow> False | Some x \<Rightarrow> x < 0)
                | LTE \<Rightarrow> (case diff of None \<Rightarrow> False | Some x \<Rightarrow> x \<le> 0)
                | EQ \<Rightarrow> (case diff of None \<Rightarrow> False | Some x \<Rightarrow> x = 0)
                | GTE \<Rightarrow> (case diff of None \<Rightarrow> False | Some x \<Rightarrow> x \<ge> 0)
                | GT \<Rightarrow> (case diff of None \<Rightarrow> False | Some x \<Rightarrow> x > 0)
                | NE \<Rightarrow> (case diff of None \<Rightarrow> True | Some x \<Rightarrow> x \<noteq> 0)
                | OtherOperator k \<Rightarrow> False))"

definition endScan :: "HeapFileScan \<Rightarrow> BufMgr \<Rightarrow> Status \<times> HeapFileScan \<times> BufMgr" where
  "endScan hs bm =
     (case curPage hs of
        Some cp \<Rightarrow>
          (let (status, bm1) = unPinPage (filePtr hs) (curPageNo hs) (curDirtyFlag hs) bm
           in (status, hs\<lparr>curPage := None, curPageNo := 0, curDirtyFlag := False\<rparr>, bm1))
      | None \<Rightarrow> (OK, hs, bm))"

definition markScan :: "HeapFileScan \<Rightarrow> Status \<times> HeapFileScan" where
  "markScan hs = (OK, hs\<lparr>markedPageNo := curPageNo hs, markedRec := curRec hs\<rparr>)"

text \<open>
  \<open>resetScan\<close>. \<open>readPage\<close> writes the page pointer only when it gets as far as the frame,
  so after a failed call \<open>curPage\<close> keeps its old value.
\<close>

definition resetScan ::
  "HeapFileScan \<Rightarrow> BufMgr \<Rightarrow> (Status \<times> HeapFileScan \<times> BufMgr) option" where
  "resetScan hs bm =
     (if markedPageNo hs \<noteq> curPageNo hs then
        let (ustatus, bm1) =
              (case curPage hs of
                 Some cp \<Rightarrow> unPinPage (filePtr hs) (curPageNo hs) (curDirtyFlag hs) bm
               | None \<Rightarrow> (OK, bm))
        in
          if ustatus \<noteq> OK then Some (ustatus, hs, bm1)
          else
            let hs1 = hs\<lparr>curPageNo := markedPageNo hs, curRec := markedRec hs\<rparr> in
            (case readPage (filePtr hs1) (curPageNo hs1) bm1 of
               None \<Rightarrow> None
             | Some (status, pg, bm2) \<Rightarrow>
                 let hs2 = (case pg of None \<Rightarrow> hs1 | Some fr \<Rightarrow> hs1\<lparr>curPage := Some fr\<rparr>) in
                 if status \<noteq> OK then Some (status, hs2, bm2)
                 else Some (OK, hs2\<lparr>curDirtyFlag := False\<rparr>, bm2))
      else Some (OK, hs\<lparr>curRec := markedRec hs\<rparr>, bm))"

text \<open>
  \<open>scanNext\<close>. \<open>scanNext_start\<close> is the block that positions a scan without cursor page
  on the first data page; \<open>Inl\<close> is a \<open>return\<close> of the source. \<open>scanNext_step\<close> is the
  first half of the loop body, up to the \<open>continue\<close>: it moves \<open>curRec\<close> to the next
  record of the page or goes to the next page; its boolean result is true when the loop
  starts over (the new page has no first record). The second half fetches the record at
  \<open>curRec\<close> and tests the predicate. The loop has no bound, and a null \<open>curPage\<close> would be
  dereferenced: the function is partial.
\<close>

type_synonym ScanResult = "Status \<times> RID option \<times> HeapFileScan \<times> BufMgr"

definition scanNext_start ::
  "HeapFileScan \<Rightarrow> BufMgr \<Rightarrow> (ScanResult + HeapFileScan \<times> BufMgr) option" where
  "scanNext_start hs bm =
     (case curPage hs of
        Some cp \<Rightarrow> Some (Inr (hs, bm))
      | None \<Rightarrow>
          let hs1 = hs\<lparr>curPageNo := firstPage (hdrOf (bufPool bm ! headerPage hs)),
                       curDirtyFlag := False\<rparr>
          in
            (case readPage (filePtr hs1) (curPageNo hs1) bm of
               None \<Rightarrow> None
             | Some (status, pg, bm1) \<Rightarrow>
                 let hs2 = (case pg of None \<Rightarrow> hs1 | Some fr \<Rightarrow> hs1\<lparr>curPage := Some fr\<rparr>) in
                 if status \<noteq> OK then Some (Inl (status, None, hs2, bm1))
                 else
                   (case curPage hs2 of
                      None \<Rightarrow> None
                    | Some cp \<Rightarrow>
                        let (fstatus, tmpRid) = firstRecord (bufPool bm1 ! cp) in
                        if fstatus \<noteq> OK then Some (Inl (fstatus, None, hs2, bm1))
                        else
                          (case tmpRid of
                             None \<Rightarrow> None
                           | Some r \<Rightarrow> Some (Inr (hs2\<lparr>curRec := r\<rparr>, bm1))))))"

definition scanNext_step ::
  "HeapFileScan \<Rightarrow> BufMgr \<Rightarrow> (ScanResult + bool \<times> HeapFileScan \<times> BufMgr) option" where
  "scanNext_step hs bm =
     (case curPage hs of
        None \<Rightarrow> None
      | Some cp \<Rightarrow>
          let (nstatus, nr) = nextRecord (bufPool bm ! cp) (curRec hs) in
          if nstatus = OK then
            (case nr of
               None \<Rightarrow> None
             | Some nextRid \<Rightarrow> Some (Inr (False, hs\<lparr>curRec := nextRid\<rparr>, bm)))
          else
            let (gstatus, nextPageNo) = getNextPage (bufPool bm ! cp) in
            if gstatus \<noteq> OK then Some (Inl (gstatus, None, hs, bm))
            else if nextPageNo = - 1 then Some (Inl (FILEEOF, None, hs, bm))
            else
              let (ustatus, bm1) =
                    unPinPage (filePtr hs) (curPageNo hs) (curDirtyFlag hs) bm
              in
                if ustatus \<noteq> OK then Some (Inl (ustatus, None, hs, bm1))
                else
                  let hs1 = hs\<lparr>curPageNo := nextPageNo, curDirtyFlag := False\<rparr> in
                  (case readPage (filePtr hs1) (curPageNo hs1) bm1 of
                     None \<Rightarrow> None
                   | Some (status, pg, bm2) \<Rightarrow>
                       let hs2 = (case pg of None \<Rightarrow> hs1
                                  | Some fr \<Rightarrow> hs1\<lparr>curPage := Some fr\<rparr>)
                       in
                         if status \<noteq> OK then Some (Inl (status, None, hs2, bm2))
                         else
                           (case curPage hs2 of
                              None \<Rightarrow> None
                            | Some cp2 \<Rightarrow>
                                let (fstatus, fr) = firstRecord (bufPool bm2 ! cp2) in
                                if fstatus \<noteq> OK then Some (Inr (True, hs2, bm2))
                                else
                                  (case fr of
                                     None \<Rightarrow> None
                                   | Some r \<Rightarrow>
                                       Some (Inr (False, hs2\<lparr>curRec := r\<rparr>, bm2))))))"

partial_function (option) scanNext_loop ::
  "(string \<Rightarrow> string \<Rightarrow> int option) \<Rightarrow> HeapFileScan \<Rightarrow> BufMgr \<Rightarrow> ScanResult option" where
  "scanNext_loop fdiff hs bm =
     (case scanNext_step hs bm of
        None \<Rightarrow> None
      | Some (Inl r) \<Rightarrow> Some r
      | Some (Inr (again, hs1, bm1)) \<Rightarrow>
          if again then scanNext_loop fdiff hs1 bm1
          else
            (case curPage hs1 of
               None \<Rightarrow> None
             | Some cp \<Rightarrow>
                 let (status, ro) = getRecord (bufPool bm1 ! cp) (curRec hs1) in
                 if status \<noteq> OK then Some (status, None, hs1, bm1)
                 else
                   (case ro of
                      None \<Rightarrow> None
                    | Some rec \<Rightarrow>
                        if matchRec fdiff hs1 rec
                        then Some (OK, Some (curRec hs1), hs1, bm1)
                        else scanNext_loop fdiff hs1 bm1)))"

declare scanNext_loop.simps [code]

definition scanNext ::
  "(string \<Rightarrow> string \<Rightarrow> int option) \<Rightarrow> HeapFileScan \<Rightarrow> BufMgr \<Rightarrow> ScanResult option" where
  "scanNext fdiff hs bm =
     (case scanNext_start hs bm of
        None \<Rightarrow> None
      | Some (Inl r) \<Rightarrow> Some r
      | Some (Inr (hs1, bm1)) \<Rightarrow> scanNext_loop fdiff hs1 bm1)"

text \<open>\<open>deleteRecord\<close> and \<open>markDirty\<close> of the scan.\<close>

definition deleteRecord :: "HeapFileScan \<Rightarrow> BufMgr \<Rightarrow> (Status \<times> HeapFileScan \<times> BufMgr) option" where
  "deleteRecord hs bm =
     (case curPage hs of
        None \<Rightarrow> None
      | Some cp \<Rightarrow>
          let (status, pg) = page_deleteRecord (bufPool bm ! cp) (curRec hs);
              bm1 = updFrame cp (\<lambda>x. pg) bm;
              bm2 = updFrame (headerPage hs)
                      (\<lambda>x. HdrPage ((hdrOf x)\<lparr>recCnt := recCnt (hdrOf x) - 1\<rparr>)) bm1
          in Some (status, hs\<lparr>curDirtyFlag := True, hdrDirtyFlag := True\<rparr>, bm2))"

definition markDirty :: "HeapFileScan \<Rightarrow> Status \<times> HeapFileScan" where
  "markDirty hs = (OK, hs\<lparr>curDirtyFlag := True\<rparr>)"

text \<open>
  \<open>InsertFileScan::insertRecord\<close>. The result is the status, the RID written to
  \<open>outRid\<close> (if any) and the new state. After the two calls of \<open>unPinPage\<close> of the
  overflow path the source tests \<open>status\<close>, which is \<open>OK\<close> there, not \<open>unpinstatus\<close>.
\<close>

definition insertRecord ::
  "Record \<Rightarrow> HeapFile \<Rightarrow> BufMgr \<Rightarrow> (Status \<times> RID option \<times> HeapFile \<times> BufMgr) option" where
  "insertRecord rec hs bm =
     (if length rec > PAGESIZE - DPFIXED then Some (INVALIDRECLEN, None, hs, bm)
      else
        (case (case curPage hs of
                 Some cp \<Rightarrow> Some (Inr (hs, bm))
               | None \<Rightarrow>
                   let (ustatus, bm1) =
                         unPinPage (filePtr hs) (curPageNo hs) (curDirtyFlag hs) bm
                   in
                     if ustatus \<noteq> OK then Some (Inl (ustatus, None, hs, bm1))
                     else
                       let hs1 = hs\<lparr>curPageNo := lastPage (hdrOf (bufPool bm1 ! headerPage hs))\<rparr>
                       in
                         (case readPage (filePtr hs1) (curPageNo hs1) bm1 of
                            None \<Rightarrow> None
                          | Some (status, pg, bm2) \<Rightarrow>
                              let hs2 = (case pg of None \<Rightarrow> hs1
                                         | Some fr \<Rightarrow> hs1\<lparr>curPage := Some fr\<rparr>)
                                          \<lparr>curDirtyFlag := False\<rparr>
                              in
                                if status \<noteq> OK then Some (Inl (status, None, hs2, bm2))
                                else
                                  (case curPage hs2 of
                                     None \<Rightarrow> None
                                   | Some cp \<Rightarrow>
                                       let (fstatus, fr) = firstRecord (bufPool bm2 ! cp) in
                                       if fstatus \<noteq> OK
                                       then Some (Inl (fstatus, None, hs2, bm2))
                                       else
                                         (case fr of
                                            None \<Rightarrow> None
                                          | Some r \<Rightarrow> Some (Inr (hs2\<lparr>curRec := r\<rparr>, bm2)))))) of
           None \<Rightarrow> None
         | Some (Inl r) \<Rightarrow> Some r
         | Some (Inr (hs3, bm3)) \<Rightarrow>
             (case curPage hs3 of
                None \<Rightarrow> None
              | Some cp \<Rightarrow>
                  let (status, ridO, pg) = page_insertRecord (bufPool bm3 ! cp) rec in
                  if status = OK then
                    let bm4 = updFrame cp (\<lambda>x. pg) bm3;
                        bm5 = updFrame (headerPage hs3)
                                (\<lambda>x. HdrPage ((hdrOf x)\<lparr>recCnt := recCnt (hdrOf x) + 1\<rparr>)) bm4
                    in
                      (case ridO of
                         None \<Rightarrow> None
                       | Some rid \<Rightarrow>
                           Some (OK, Some rid, hs3\<lparr>curRec := rid, curDirtyFlag := True\<rparr>, bm5))
                  else if status = NOSPACE then
                    (case allocPage (filePtr hs3) bm3 of
                       None \<Rightarrow> None
                     | Some (astatus, np, bm4) \<Rightarrow>
                         if astatus \<noteq> OK then Some (astatus, None, hs3, bm4)
                         else
                           (case np of
                              None \<Rightarrow> None
                            | Some (newPageNo, newPage) \<Rightarrow>
                                let bm5 = updFrame newPage (page_init newPageNo) bm4;
                                    bm6 = updFrame (headerPage hs3)
                                            (\<lambda>x. HdrPage ((hdrOf x)\<lparr>lastPage := newPageNo,
                                                     pageCnt := pageCnt (hdrOf x) + 1\<rparr>)) bm5;
                                    bm7 = updFrame cp (setNextPage newPageNo) bm6;
                                    hs4 = hs3\<lparr>curDirtyFlag := True\<rparr>;
                                    (unpinstatus, bm8) =
                                      unPinPage (filePtr hs4) (curPageNo hs4) (curDirtyFlag hs4) bm7;
                                    hs5 = hs4\<lparr>curPageNo := lastPage (hdrOf (bufPool bm8 ! headerPage hs4))\<rparr>
                                in
                                  (case readPage (filePtr hs5) (curPageNo hs5) bm8 of
                                     None \<Rightarrow> None
                                   | Some (rstatus, pg2, bm9) \<Rightarrow>
                                       let hs6 = (case pg2 of None \<Rightarrow> hs5
                                                  | Some fr \<Rightarrow> hs5\<lparr>curPage := Some fr\<rparr>)
                                       in
                                         if rstatus \<noteq> OK then Some (rstatus, None, hs6, bm9)
                                         else
                                           (case curPage hs6 of
                                              None \<Rightarrow> None
                                            | Some cp2 \<Rightarrow>
                                                let (istatus, ridO2, pg3) =
                                                      page_insertRecord (bufPool bm9 ! cp2) rec
                                                in
                                                  if istatus \<noteq> OK
                                                  then Some (istatus, None, hs6, bm9)
                                                  else
                                                    (case ridO2 of
                                                       None \<Rightarrow> None
                                                     | Some rid \<Rightarrow>
                                                         let bm10 = updFrame cp2 (\<lambda>x. pg3) bm9;
                                                             bm11 = updFrame (headerPage hs6)
                                                               (\<lambda>x. HdrPage ((hdrOf x)
                                                                 \<lparr>recCnt := recCnt (hdrOf x) + 1\<rparr>)) bm10;
                                                             hs7 = hs6\<lparr>curRec := rid,
                                                                       curDirtyFlag := True\<rparr>;
                                                             bm12 = updFrame cp2 (setNextPage (- 1)) bm11;
                                                             (unpinstatus2, bm13) =
                                                               unPinPage (filePtr hs7) (curPageNo hs7)
                                                                 (curDirtyFlag hs7) bm12
                                                         in Some (OK, Some rid, hs7, bm13))))))
                  else Some (status, None, hs3, bm3))))"

text \<open>
  Repeated calls of \<open>scanNext\<close>: the status and the RID of each of \<open>n\<close> calls in turn,
  and the state after the last.
\<close>

fun scanCalls ::
  "(string \<Rightarrow> string \<Rightarrow> int option) \<Rightarrow> nat \<Rightarrow> HeapFileScan \<Rightarrow> BufMgr
   \<Rightarrow> ((Status \<times> RID option) list \<times> HeapFileScan \<times> BufMgr) option" where
  "scanCalls fdiff 0 hs bm = Some ([], hs, bm)"
| "scanCalls fdiff (Suc n) hs bm =
     (case scanNext fdiff hs bm of
        None \<Rightarrow> None
      | Some (st, rid, hs1, bm1) \<Rightarrow>
          (case scanCalls fdiff n hs1 bm1 of
             None \<Rightarrow> None
           | Some (rs, hs2, bm2) \<Rightarrow> Some ((st, rid) # rs, hs2, bm2)))"

section \<open>Logical page contents and the invariant of a scan\<close>

text \<open>
  \<open>view bm\<close> is the content of every page as a client of the buffer manager sees it: the
  frame when the page is resident, the page on disk otherwise. \<open>clean_pool\<close> says that a
  frame that may be replaced without a write (valid, not dirty, not pinned) has the
  content of its page on disk: pages were unpinned dirty when they were modified.
  \<open>pool_inv\<close> collects the invariants of the pool.
\<close>

definition view :: "BufMgr \<Rightarrow> (File \<times> int) \<rightharpoonup> Page" where
  "view bm key =
     (case hashTable bm key of
        Some fr \<Rightarrow> Some (bufPool bm ! fr)
      | None \<Rightarrow> dpages (disk bm) key)"

definition clean_pool :: "BufMgr \<Rightarrow> bool" where
  "clean_pool bm \<longleftrightarrow>
     (\<forall>i<numBufs bm. \<forall>f.
        valid (bufTable bm ! i) \<and> \<not> dirty (bufTable bm ! i)
        \<and> pinCnt (bufTable bm ! i) \<le> 0 \<and> file (bufTable bm ! i) = Some f \<longrightarrow>
        dpages (disk bm) (f, pageNo (bufTable bm ! i)) = Some (bufPool bm ! i))"

definition pool_inv :: "BufMgr \<Rightarrow> bool" where
  "pool_inv bm \<longleftrightarrow> wf_bufs bm \<and> coherent bm \<and> pins_nonneg bm \<and> clean_pool bm"

text \<open>
  The cursor of a heap file is in order when its page pointer is the frame that holds
  page \<open>curPageNo\<close> of the file, the frame is pinned, and the frame has the content of the
  page on disk unless it is dirty, the cursor is flagged dirty or somebody else holds a
  pin as well. \<open>scan_inv\<close> is the invariant of a scan that holds a cursor page.
\<close>

definition cursor_inv :: "File \<Rightarrow> int \<Rightarrow> nat \<Rightarrow> bool \<Rightarrow> BufMgr \<Rightarrow> bool" where
  "cursor_inv f pno cp dflag bm \<longleftrightarrow>
     hashTable bm (f, pno) = Some cp
     \<and> 0 < pinCnt (bufTable bm ! cp)
     \<and> (\<not> dirty (bufTable bm ! cp) \<and> \<not> dflag \<and> pinCnt (bufTable bm ! cp) \<le> 1 \<longrightarrow>
          dpages (disk bm) (f, pno) = Some (bufPool bm ! cp))"

definition scan_inv :: "HeapFileScan \<Rightarrow> BufMgr \<Rightarrow> bool" where
  "scan_inv hs bm \<longleftrightarrow>
     pool_inv bm
     \<and> (\<exists>cp. curPage hs = Some cp
            \<and> cursor_inv (filePtr hs) (curPageNo hs) cp (curDirtyFlag hs) bm)"

text \<open>Two scan objects with the same file, predicate and mark.\<close>

definition same_scan :: "HeapFileScan \<Rightarrow> HeapFileScan \<Rightarrow> bool" where
  "same_scan a b \<longleftrightarrow>
     filePtr a = filePtr b \<and> offset_s a = offset_s b \<and> length_s a = length_s b
     \<and> type_s a = type_s b \<and> filter_s a = filter_s b \<and> op_s a = op_s b
     \<and> markedPageNo a = markedPageNo b \<and> markedRec a = markedRec b"

text \<open>
  Where the first half of the loop body of \<open>scanNext\<close> takes the cursor, as a function of
  the logical page contents: whether the loop starts over, the page number and the
  current record.
\<close>

definition scan_target ::
  "((File \<times> int) \<rightharpoonup> Page) \<Rightarrow> File \<Rightarrow> int \<Rightarrow> RID \<Rightarrow> bool \<times> int \<times> RID" where
  "scan_target V f pno r =
     (let pg = the (V (f, pno)) in
      if fst (nextRecord pg r) = OK then (False, pno, the (snd (nextRecord pg r)))
      else
        let nx = nextPageOf pg; pg2 = the (V (f, nx)) in
        if fst (firstRecord pg2) \<noteq> OK then (True, nx, r)
        else (False, nx, the (snd (firstRecord pg2))))"

text \<open>
  The sequence of the mark/reset law: \<open>markScan\<close>, \<open>k\<close> calls of \<open>scanNext\<close>,
  \<open>resetScan\<close>, one more \<open>scanNext\<close>. The result lists status and RID of the \<open>k\<close>
  calls, the status of \<open>resetScan\<close>, and status and RID of the last call.
\<close>

definition mark_reset_run ::
  "(string \<Rightarrow> string \<Rightarrow> int option) \<Rightarrow> nat \<Rightarrow> HeapFileScan \<Rightarrow> BufMgr
   \<Rightarrow> ((Status \<times> RID option) list \<times> Status \<times> Status \<times> RID option) option" where
  "mark_reset_run fdiff k hs bm =
     (case scanCalls fdiff k (snd (markScan hs)) bm of
        None \<Rightarrow> None
      | Some (rs, hs1, bm1) \<Rightarrow>
          (case resetScan hs1 bm1 of
             None \<Rightarrow> None
           | Some (rst, hs2, bm2) \<Rightarrow>
               (case scanNext fdiff hs2 bm2 of
                  None \<Rightarrow> None
                | Some (st, rid, hs3, bm3) \<Rightarrow> Some (rs, rst, st, rid))))"

section \<open>The constructor of HeapFile (heapfile.C)\<close>

text \<open>
  The constructor \<open>HeapFile::HeapFile(fileName, returnStatus)\<close>, from the point where
  \<open>db.openFile\<close> has returned \<open>OK\<close> with the file \<open>f\<close> and \<open>getFirstPage\<close> has returned
  \<open>OK\<close> with the page number \<open>pageNo\<close> (both are functions of db.C, which is not among
  the sources). \<open>raw\<close> is the storage of the object before the constructor runs: the
  constructor assigns the members one by one and returns early on an error, so the
  members it has not reached keep the values of \<open>raw\<close>. The constructors of
  \<open>HeapFileScan\<close> and \<open>InsertFileScan\<close> run this one and add nothing to these members.
\<close>

definition HeapFile_ctor ::
  "HeapFile \<Rightarrow> File \<Rightarrow> int \<Rightarrow> BufMgr \<Rightarrow> (Status \<times> HeapFile \<times> BufMgr) option" where
  "HeapFile_ctor raw f pageNum bm =
     (let hf0 = raw\<lparr>filePtr := f\<rparr> in
      case readPage f pageNum bm of
        None \<Rightarrow> None
      | Some (status, pagePtr, bm1) \<Rightarrow>
          if status \<noteq> OK then Some (status, hf0, bm1)
          else
            (case pagePtr of
               None \<Rightarrow> None
             | Some hp \<Rightarrow>
                 let hf1 = hf0\<lparr>headerPage := hp, headerPageNo := pageNum,
                               hdrDirtyFlag := False\<rparr>;
                     firstNo = firstPage (hdrOf (bufPool bm1 ! hp))
                 in
                   (case readPage f firstNo bm1 of
                      None \<Rightarrow> None
                    | Some (status2, pagePtr2, bm2) \<Rightarrow>
                        if status2 \<noteq> OK then Some (status2, hf1, bm2)
                        else
                          (case pagePtr2 of
                             None \<Rightarrow> None
                           | Some cp \<Rightarrow>
                               Some (OK,
                                     hf1\<lparr>curPage := Some cp, curPageNo := firstNo,
                                         curDirtyFlag := False, curRec := NULLRID\<rparr>,
                                     bm2)))))"

section \<open>Concrete states used by the evaluations\<close>

text \<open>
  A file store where pages 0 to 3 of file 0 are allocated, and a pool of two frames after
  the calls readPage(0), readPage(1), unPinPage(1), readPage(2), unPinPage(2) on a new
  buffer manager: frame 0 holds page 0, pinned, its reference bit cleared by the last
  sweep; frame 1 holds page 2, not pinned, referenced; the clock hand is on frame 1.
\<close>

definition d0 :: Disk where
  "d0 = \<lparr>dpages = (\<lambda>k. if fst k = 0 \<and> 0 \<le> snd k \<and> snd k < 4 then Some zeroPage else None),
          nalloc = (\<lambda>f. 4), ioLog = []\<rparr>"

definition s_pin :: BufMgr where
  "s_pin = \<lparr>numBufs = 2,
     bufTable = [\<lparr>file = Some 0, pageNo = 0, frameNo = 0, pinCnt = 1, dirty = False,
                   valid = True, refbit = False\<rparr>,
                 \<lparr>file = Some 0, pageNo = 2, frameNo = 1, pinCnt = 0, dirty = False,
                   valid = True, refbit = True\<rparr>],
     bufPool = [zeroPage, zeroPage],
     hashTable = [(0, 0) \<mapsto> 0, (0, 2) \<mapsto> 1],
     clockHand = 1,
     disk = d0\<rparr>"

definition run_pin :: "(Status \<times> nat option \<times> BufMgr) option" where
  "run_pin =
     (case readPage 0 0 (BufMgr_new 2 d0) of
        None \<Rightarrow> None
      | Some (st1, fr1, s1) \<Rightarrow>
     (case readPage 0 1 s1 of
        None \<Rightarrow> None
      | Some (st2, fr2, s2) \<Rightarrow>
     (case readPage 0 2 (snd (unPinPage 0 1 False s2)) of
        None \<Rightarrow> None
      | Some (st4, fr4, s4) \<Rightarrow> Some (st4, fr4, snd (unPinPage 0 2 False s4)))))"

text \<open>
  A pool of two frames after readPage(0) on a new buffer manager: frame 0 holds page 0 of
  file 0, pinned once; frame 1 is free. \<open>s_unp\<close> is the same pool after
  unPinPage(0, dirty = true).
\<close>

definition s_one :: BufMgr where
  "s_one = \<lparr>numBufs = 2,
     bufTable = [\<lparr>file = Some 0, pageNo = 0, frameNo = 0, pinCnt = 1, dirty = False,
                   valid = True, refbit = True\<rparr>,
                 \<lparr>file = None, pageNo = 0, frameNo = 1, pinCnt = 0, dirty = False,
                   valid = False, refbit = False\<rparr>],
     bufPool = [zeroPage, zeroPage],
     hashTable = [(0, 0) \<mapsto> 0],
     clockHand = 0,
     disk = d0\<lparr>ioLog := [RD 0 0]\<rparr>\<rparr>"

definition s_unp :: BufMgr where
  "s_unp = \<lparr>numBufs = 2,
     bufTable = [\<lparr>file = Some 0, pageNo = 0, frameNo = 0, pinCnt = 0, dirty = True,
                   valid = True, refbit = True\<rparr>,
                 \<lparr>file = None, pageNo = 0, frameNo = 1, pinCnt = 0, dirty = False,
                   valid = False, refbit = False\<rparr>],
     bufPool = [zeroPage, zeroPage],
     hashTable = [(0, 0) \<mapsto> 0],
     clockHand = 0,
     disk = d0\<lparr>ioLog := [RD 0 0]\<rparr>\<rparr>"

text \<open>
  A pool of two frames, both dirty: frame 0 holds page 0 and is pinned, frame 1 holds
  page 1 with one record and is not pinned; the clock hand is on frame 0.
\<close>

definition s_dirty :: BufMgr where
  "s_dirty = \<lparr>numBufs = 2,
     bufTable = [\<lparr>file = Some 0, pageNo = 0, frameNo = 0, pinCnt = 1, dirty = True,
                   valid = True, refbit = False\<rparr>,
                 \<lparr>file = Some 0, pageNo = 1, frameNo = 1, pinCnt = 0, dirty = True,
                   valid = True, refbit = False\<rparr>],
     bufPool = [zeroPage, DataPage [Some ''a''] (- 1) 1],
     hashTable = [(0, 0) \<mapsto> 0, (0, 1) \<mapsto> 1],
     clockHand = 0,
     disk = d0\<rparr>"

text \<open>
  On a new buffer manager of two frames: readPage(0), unPinPage(0, dirty = true),
  disposePage(0). The result lists whether page 0 is dirty before \<open>disposePage\<close>, the
  status of \<open>disposePage\<close>, the dirty bit of frame 0 and whether page 0 is dirty after
  it, and the log of the file store.
\<close>

definition run_dispose :: "(bool \<times> Status \<times> bool \<times> bool \<times> IoOp list) option" where
  "run_dispose =
     (case readPage 0 0 (BufMgr_new 2 d0) of
        None \<Rightarrow> None
      | Some (st1, fr1, s1) \<Rightarrow>
          let s2 = snd (unPinPage 0 0 True s1);
              (st3, s3) = disposePage 0 0 s2
          in Some (dirty_page 0 0 s2, st3, dirty (bufTable s3 ! 0), dirty_page 0 0 s3,
                   ioLog (disk s3)))"

text \<open>
  A pool of two frames of file 0: frame 0 is dirty, not pinned, and holds page 7, which
  the file store \<open>d0\<close> does not have; frame 1 holds page 1 and is pinned.
\<close>

definition s_fl :: BufMgr where
  "s_fl = \<lparr>numBufs = 2,
     bufTable = [\<lparr>file = Some 0, pageNo = 7, frameNo = 0, pinCnt = 0, dirty = True,
                   valid = True, refbit = False\<rparr>,
                 \<lparr>file = Some 0, pageNo = 1, frameNo = 1, pinCnt = 1, dirty = False,
                   valid = True, refbit = True\<rparr>],
     bufPool = [zeroPage, zeroPage],
     hashTable = [(0, 7) \<mapsto> 0, (0, 1) \<mapsto> 1],
     clockHand = 1,
     disk = d0\<rparr>"

text \<open>
  A pool of two frames of file 0: frame 0 holds page 0 with one record, dirty and not
  pinned; frame 1 holds page 1 and is pinned.
\<close>

definition s_part :: BufMgr where
  "s_part = \<lparr>numBufs = 2,
     bufTable = [\<lparr>file = Some 0, pageNo = 0, frameNo = 0, pinCnt = 0, dirty = True,
                   valid = True, refbit = False\<rparr>,
                 \<lparr>file = Some 0, pageNo = 1, frameNo = 1, pinCnt = 1, dirty = False,
                   valid = True, refbit = True\<rparr>],
     bufPool = [DataPage [Some ''a''] (- 1) 0, zeroPage],
     hashTable = [(0, 0) \<mapsto> 0, (0, 1) \<mapsto> 1],
     clockHand = 1,
     disk = d0\<rparr>"

text \<open>
  A heap file (file 0) with two records: page 1 is the header page, page 2 the only data
  page, with the records \<open>a\<close> and \<open>b\<close> in slots 0 and 1. Page 0 of the file is not a
  page of the heap file. \<open>bm_open\<close> and \<open>scan_open\<close> are a pool of three frames and a scan
  as the constructor leaves them: the header page pinned in frame 0, the first data page
  pinned in frame 1 as the cursor, \<open>curRec = NULLRID\<close>. \<open>scan_ended\<close> and \<open>bm_ended\<close> are
  the scan and the pool after \<open>endScan\<close>. \<open>insert_open\<close> is an \<open>InsertFileScan\<close> as the
  constructor leaves it.
\<close>

definition dh :: Disk where
  "dh = \<lparr>dpages = [(0, 0) \<mapsto> DataPage [Some ''z''] (- 1) 0,
                   (0, 1) \<mapsto> HdrPage \<lparr>fileName = ''rel'', firstPage = 2, lastPage = 2,
                                       pageCnt = 1, recCnt = 2\<rparr>,
                   (0, 2) \<mapsto> DataPage [Some ''a'', Some ''b''] (- 1) 2],
          nalloc = (\<lambda>f. 3), ioLog = []\<rparr>"

definition bm_open :: BufMgr where
  "bm_open = \<lparr>numBufs = 3,
     bufTable = [\<lparr>file = Some 0, pageNo = 1, frameNo = 0, pinCnt = 1, dirty = False,
                   valid = True, refbit = True\<rparr>,
                 \<lparr>file = Some 0, pageNo = 2, frameNo = 1, pinCnt = 1, dirty = False,
                   valid = True, refbit = True\<rparr>,
                 \<lparr>file = None, pageNo = 0, frameNo = 2, pinCnt = 0, dirty = False,
                   valid = False, refbit = False\<rparr>],
     bufPool = [HdrPage \<lparr>fileName = ''rel'', firstPage = 2, lastPage = 2,
                         pageCnt = 1, recCnt = 2\<rparr>,
                DataPage [Some ''a'', Some ''b''] (- 1) 2,
                zeroPage],
     hashTable = [(0, 1) \<mapsto> 0, (0, 2) \<mapsto> 1],
     clockHand = 1,
     disk = dh\<rparr>"

definition scan_open :: HeapFileScan where
  "scan_open = \<lparr>filePtr = 0, headerPage = 0, headerPageNo = 1, hdrDirtyFlag = False,
     curPage = Some 1, curPageNo = 2, curDirtyFlag = False, curRec = NULLRID,
     offset_s = 0, length_s = 0, type_s = STRING, filter_s = None, op_s = EQ,
     markedPageNo = 0, markedRec = NULLRID\<rparr>"

definition scan_ended :: HeapFileScan where
  "scan_ended = fst (snd (endScan scan_open bm_open))"

definition bm_ended :: BufMgr where
  "bm_ended = snd (snd (endScan scan_open bm_open))"

definition insert_open :: HeapFile where
  "insert_open = \<lparr>filePtr = 0, headerPage = 0, headerPageNo = 1, hdrDirtyFlag = False,
     curPage = Some 1, curPageNo = 2, curDirtyFlag = False, curRec = NULLRID\<rparr>"

text \<open>
  An \<open>InsertFileScan\<close> whose constructor fails. \<open>dh2\<close> is the file store \<open>dh\<close> with a
  page 0 of a second file, 1. \<open>zero_object\<close> is the storage of an object with all bytes
  zero, which is what the constructor of an object of static storage duration finds.
  \<open>run_ctor_fail\<close>: on a new buffer manager of two frames another client reads and
  pins page 0 of file 1; the constructor then runs on the heap file (file 0, header
  page 1); the other client unpins its page. The result is the status of the
  constructor, the object and the pool.
\<close>

definition dh2 :: Disk where
  "dh2 = dh\<lparr>dpages := (dpages dh)((1, 0) \<mapsto> zeroPage)\<rparr>"

definition zero_object :: HeapFile where
  "zero_object = \<lparr>filePtr = 0, headerPage = 0, headerPageNo = 0, hdrDirtyFlag = False,
     curPage = None, curPageNo = 0, curDirtyFlag = False, curRec = RID 0 0\<rparr>"

definition run_ctor_fail :: "(Status \<times> HeapFile \<times> BufMgr) option" where
  "run_ctor_fail =
     (case readPage 1 0 (BufMgr_new 2 dh2) of
        None \<Rightarrow> None
      | Some (st1, fr1, b1) \<Rightarrow>
          (case HeapFile_ctor zero_object 0 1 b1 of
             None \<Rightarrow> None
           | Some (cst, hf, b2) \<Rightarrow> Some (cst, hf, snd (unPinPage 1 0 False b2))))"

text \<open>
  \<open>insert_after_ctor_fail\<close>: status and RID of \<open>insertRecord\<close> of a one-byte record on
  the object and the pool of \<open>run_ctor_fail\<close>. \<open>insert_with_cursor_on_lastPage\<close>: the same
  insertion after \<open>headerPage.lastPage\<close> has been read and made the cursor.
\<close>

definition insert_after_ctor_fail :: "(Status \<times> RID option) option" where
  "insert_after_ctor_fail =
     (case run_ctor_fail of
        None \<Rightarrow> None
      | Some (cst, hf, bm) \<Rightarrow>
          map_option (\<lambda>(st, rid, hs, bm'). (st, rid)) (insertRecord ''c'' hf bm))"

definition insert_with_cursor_on_lastPage :: "(Status \<times> RID option) option" where
  "insert_with_cursor_on_lastPage =
     (case run_ctor_fail of
        None \<Rightarrow> None
      | Some (cst, hf, bm) \<Rightarrow>
          let lastNo = lastPage (hdrOf (bufPool bm ! headerPage hf)) in
          (case readPage (filePtr hf) lastNo bm of
             None \<Rightarrow> None
           | Some (st, fr, bm2) \<Rightarrow>
               map_option (\<lambda>(st, rid, hs, bm'). (st, rid))
                 (insertRecord ''c''
                    (hf\<lparr>curPage := fr, curPageNo := lastNo, curDirtyFlag := False\<rparr>) bm2)))"

definition no_fdiff :: "string \<Rightarrow> string \<Rightarrow> int option" where
  "no_fdiff a b = Some 0"

section \<open>Clock replacement\<close>

lemma run_pin_reaches_s_pin:
  "map_option (\<lambda>(st, fr, s). (st, bufTable s, clockHand s)) run_pin
     = Some (OK, bufTable s_pin, clockHand s_pin)"
  by code_simp

text \<open>
  C1. The claim: \<open>allocBuf\<close> returns \<open>BUFFEREXCEEDED\<close> only when every frame is pinned, and
  never when some frame is invalid or has pinCnt = 0 at the start of the call. The code
  counts every visit of a pinned frame in \<open>numPinnedPages\<close> and never resets the counter
  at the end of a sweep, so a pinned frame met twice counts twice: in the pool \<open>s_pin\<close> of
  two frames, frame 1 is valid with pinCnt = 0, and the call visits frame 0 (pinned,
  count 1), frame 1 (reference bit cleared), frame 0 again (count 2) and returns
  \<open>BUFFEREXCEEDED\<close> without looking at frame 1 a second time.
\<close>

theorem allocBuf_exceeded_with_unpinned_frame:
  "map_option fst (allocBuf s_pin) = Some BUFFEREXCEEDED
   \<and> valid (bufTable s_pin ! 1) \<and> pinCnt (bufTable s_pin ! 1) = 0"
  by code_simp

section \<open>Helper facts\<close>

lemma eq_upto_refbit_refl [simp]: "eq_upto_refbit b b"
  by (simp add: eq_upto_refbit_def)

lemma eq_upto_refbit_upd [simp]: "eq_upto_refbit b (b\<lparr>refbit := x\<rparr>)"
  by (simp add: eq_upto_refbit_def)

lemma eq_upto_refbit_trans:
  "eq_upto_refbit a b \<Longrightarrow> eq_upto_refbit b c \<Longrightarrow> eq_upto_refbit a c"
  by (simp add: eq_upto_refbit_def)

lemma eq_upto_refbit_fields:
  assumes "eq_upto_refbit a b"
  shows "file a = file b" "pageNo a = pageNo b" "frameNo a = frameNo b"
    "pinCnt a = pinCnt b" "dirty a = dirty b" "valid a = valid b" "Clear a = Clear b"
proof -
  from assms have e: "a\<lparr>refbit := False\<rparr> = b\<lparr>refbit := False\<rparr>"
    by (simp add: eq_upto_refbit_def)
  have "file (a\<lparr>refbit := False\<rparr>) = file (b\<lparr>refbit := False\<rparr>)" using e by simp
  then show "file a = file b" by simp
  have "pageNo (a\<lparr>refbit := False\<rparr>) = pageNo (b\<lparr>refbit := False\<rparr>)" using e by simp
  then show "pageNo a = pageNo b" by simp
  have "frameNo (a\<lparr>refbit := False\<rparr>) = frameNo (b\<lparr>refbit := False\<rparr>)" using e by simp
  then show "frameNo a = frameNo b" by simp
  have "pinCnt (a\<lparr>refbit := False\<rparr>) = pinCnt (b\<lparr>refbit := False\<rparr>)" using e by simp
  then show "pinCnt a = pinCnt b" by simp
  have "dirty (a\<lparr>refbit := False\<rparr>) = dirty (b\<lparr>refbit := False\<rparr>)" using e by simp
  then show "dirty a = dirty b" by simp
  have "valid (a\<lparr>refbit := False\<rparr>) = valid (b\<lparr>refbit := False\<rparr>)" using e by simp
  then show "valid a = valid b" by simp
  have "Clear (a\<lparr>refbit := False\<rparr>) = Clear (b\<lparr>refbit := False\<rparr>)" using e by simp
  then show "Clear a = Clear b" by (simp add: Clear_def)
qed

lemma file_writePage_facts:
  assumes "file_writePage f p pg d = (st, d')"
  shows "reads d' = reads d"
    and "nalloc d' = nalloc d"
    and "st = OK \<Longrightarrow> dpages d' = (dpages d)((f, p) \<mapsto> pg) \<and> dpages d (f, p) \<noteq> None"
    and "st \<noteq> OK \<Longrightarrow> dpages d' = dpages d"
    and "ioLog d' = ioLog d @ [WR f p]"
  using assms
  by (auto simp: file_writePage_def reads_def Let_def split: option.splits)

lemma remove_h_facts:
  assumes "remove_h h fo p = (st, h')"
  shows "st \<noteq> OK \<Longrightarrow> h' = h"
    and "st = OK \<Longrightarrow> \<exists>f. fo = Some f \<and> h (f, p) \<noteq> None \<and> h' = h((f, p) := None)"
  using assms
  by (auto simp: remove_h_def split: option.splits)

section \<open>The effect of allocBuf\<close>

lemma allocBuf_post_pre:
  assumes post: "allocBuf_post t y"
    and frames: "\<forall>i<numBufs s. eq_upto_refbit (bufTable s ! i) (bufTable t ! i)"
    and same: "numBufs t = numBufs s" "bufPool t = bufPool s" "hashTable t = hashTable s"
      "disk t = disk s" "length (bufTable t) = length (bufTable s)"
  shows "allocBuf_post s y"
proof -
  obtain st fr s' where y: "y = (st, fr, s')" by (cases y) auto
  show ?thesis
  proof (cases fr)
    case None
    with post y same have a: "st \<noteq> OK"
      and b: "\<forall>i<numBufs s. eq_upto_refbit (bufTable t ! i) (bufTable s' ! i)"
      and c: "numBufs s' = numBufs s" "bufPool s' = bufPool s"
        "length (bufTable s') = length (bufTable s)" "reads (disk s') = reads (disk s)"
        "hashTable s' = hashTable s"
      by (simp_all add: allocBuf_post_def)
    from b frames have "\<forall>i<numBufs s. eq_upto_refbit (bufTable s ! i) (bufTable s' ! i)"
      using eq_upto_refbit_trans by blast
    with a c None y show ?thesis by (simp add: allocBuf_post_def)
  next
    case (Some frame)
    with post y same have a: "st = OK" "frame < numBufs s"
      and b: "\<forall>i<numBufs s. i \<noteq> frame \<longrightarrow> eq_upto_refbit (bufTable t ! i) (bufTable s' ! i)"
      and c: "numBufs s' = numBufs s" "bufPool s' = bufPool s"
        "length (bufTable s') = length (bufTable s)" "reads (disk s') = reads (disk s)"
      and d: "bufTable s' ! frame = Clear (bufTable t ! frame)"
      and e: "victim_post t frame s'"
      by (simp_all add: allocBuf_post_def)
    from frames a have f: "eq_upto_refbit (bufTable s ! frame) (bufTable t ! frame)" by blast
    note ff = eq_upto_refbit_fields [OF f]
    from b frames
    have b': "\<forall>i<numBufs s. i \<noteq> frame \<longrightarrow> eq_upto_refbit (bufTable s ! i) (bufTable s' ! i)"
      using eq_upto_refbit_trans by blast
    from d ff have d': "bufTable s' ! frame = Clear (bufTable s ! frame)" by simp
    have "victim_post t frame s' = victim_post s frame s'"
      by (simp add: victim_post_def Let_def ff same)
    with e have e': "victim_post s frame s'" by simp
    from a b' c d' e' Some y show ?thesis by (simp add: allocBuf_post_def)
  qed
qed

lemma allocBuf_loop_post:
  "allocBuf_loop n s = Some y \<Longrightarrow> wf_bufs s \<longrightarrow> n \<le> numBufs s \<longrightarrow> allocBuf_post s y"
proof (induct n s y rule: allocBuf_loop.raw_induct [rotated 1, consumes 1, case_names step])
  case (step loop n s y)
  show ?case
  proof (intro impI)
    assume wf: "wf_bufs s" and nle: "n \<le> numBufs s"
    note IH = step(1) [rule_format]
    note body = step(2)
    define s1 where "s1 = advanceClock s"
    define h where "h = clockHand s1"
    define b where "b = bufTable s ! h"
    note defs = Let_def s1_def h_def b_def
    have s1: "numBufs s1 = numBufs s" "bufTable s1 = bufTable s" "bufPool s1 = bufPool s"
      "hashTable s1 = hashTable s" "disk s1 = disk s"
      by (simp_all add: s1_def advanceClock_def)
    have s1': "numBufs (advanceClock s) = numBufs s" "bufTable (advanceClock s) = bufTable s"
      "bufPool (advanceClock s) = bufPool s"
      "hashTable (advanceClock s) = hashTable s" "disk (advanceClock s) = disk s"
      by (simp_all add: advanceClock_def)
    from wf have len: "length (bufTable s) = numBufs s" by (simp add: wf_bufs_def)
    show "allocBuf_post s y"
    proof (cases "numBufs s = n")
      case True
      with body have "y = (BUFFEREXCEEDED, None, s)" by simp
      then show ?thesis by (simp add: allocBuf_post_def)
    next
      case False
      note ne = False
      with nle have pos: "0 < numBufs s" and n1: "n + 1 \<le> numBufs s" by auto
      then have hlt: "h < numBufs s" by (simp add: h_def s1_def advanceClock_def)
      with wf have fno: "frameNo b = h" by (simp add: wf_bufs_def b_def)
      show ?thesis
      proof (cases "valid b")
        case False
        with body ne fno [unfolded defs]
        have y: "y = (OK, Some h, s1\<lparr>bufTable := (bufTable s)[h := Clear b]\<rparr>)"
          by (simp add: defs s1')
        have "victim_post s h (s1\<lparr>bufTable := (bufTable s)[h := Clear b]\<rparr>)"
          using False by (simp add: victim_post_def Let_def s1 b_def)
        then show ?thesis using hlt len
          by (simp add: y allocBuf_post_def s1 b_def)
      next
        case True
        note v = True
        show ?thesis
        proof (cases "refbit b")
          case True
          define t where "t = s1\<lparr>bufTable := (bufTable s)[h := b\<lparr>refbit := False\<rparr>]\<rparr>"
          from body ne v True have "loop n t = Some y" by (simp add: t_def defs s1')
          moreover have "wf_bufs t" using wf hlt
            by (auto simp: wf_bufs_def t_def s1 b_def nth_list_update)
          moreover have "n \<le> numBufs t" using nle by (simp add: t_def s1)
          ultimately have "allocBuf_post t y" by (rule IH)
          moreover have "\<forall>i<numBufs s. eq_upto_refbit (bufTable s ! i) (bufTable t ! i)"
            using len hlt by (auto simp: t_def s1 b_def nth_list_update)
          ultimately show ?thesis
            by (rule allocBuf_post_pre) (simp_all add: t_def s1)
        next
          case False
          note nr = False
          show ?thesis
          proof (cases "pinCnt b > 0")
            case True
            from body ne v nr True have "loop (n + 1) s1 = Some y" by (simp add: defs s1')
            moreover have "wf_bufs s1" using wf by (simp add: wf_bufs_def s1)
            moreover have "n + 1 \<le> numBufs s1" using n1 by (simp add: s1)
            ultimately have "allocBuf_post s1 y" by (rule IH)
            then show ?thesis
              by (rule allocBuf_post_pre) (simp_all add: s1)
          next
            case False
            note np = False
            obtain wret d where w: "(if dirty b
                     then file_writePage (the (file b)) (pageNo b) (bufPool s ! h) (disk s)
                     else (OK, disk s)) = (wret, d)" by fastforce
            obtain ret ht where r: "remove_h (hashTable s) (file b) (pageNo b) = (ret, ht)"
              by fastforce
            from body ne v nr np have nn: "\<not> (dirty b \<and> file b = None)"
              by (auto simp: defs s1' split: if_splits)
            have rd: "reads d = reads (disk s)"
              using w file_writePage_facts(1) by (auto split: if_splits)
            have body2: "(if wret \<noteq> OK then Some (UNIXERR, None, s1\<lparr>disk := d\<rparr>)
                else if ret \<noteq> OK then Some (ret, None, s1\<lparr>disk := d, hashTable := ht\<rparr>)
                    else Some (OK, Some h,
                           s1\<lparr>disk := d, hashTable := ht, bufTable := (bufTable s)[h := Clear b]\<rparr>))
                 = Some y"
            proof (cases "dirty b")
              case True
              with nn obtain f0 where "file b = Some f0" by auto
              with body ne v nr np w r fno True show ?thesis
                by (auto simp: defs s1' split: if_splits)
            next
              case False
              with body ne v nr np w r fno show ?thesis
                by (auto simp: defs s1' split: if_splits)
            qed
            show ?thesis
            proof (cases "wret = OK")
              case False
              with body2 have "y = (UNIXERR, None, s1\<lparr>disk := d\<rparr>)" by simp
              then show ?thesis using rd by (simp add: allocBuf_post_def s1)
            next
              case True
              note wok = True
              show ?thesis
              proof (cases "ret = OK")
                case False
                with body2 wok have "y = (ret, None, s1\<lparr>disk := d, hashTable := ht\<rparr>)" by simp
                then show ?thesis using rd False remove_h_facts(1) [OF r False]
                  by (simp add: allocBuf_post_def s1)
              next
                case True
                with body2 wok have y: "y = (OK, Some h,
                    s1\<lparr>disk := d, hashTable := ht, bufTable := (bufTable s)[h := Clear b]\<rparr>)"
                  by simp
                from remove_h_facts(2) [OF r True] obtain f where
                  f: "file b = Some f" "hashTable s (f, pageNo b) \<noteq> None"
                     "ht = (hashTable s)((f, pageNo b) := None)"
                  by auto
                have dk: "if dirty b
                   then dpages d = (dpages (disk s))((f, pageNo b) \<mapsto> bufPool s ! h)
                        \<and> dpages (disk s) (f, pageNo b) \<noteq> None
                        \<and> ioLog d = ioLog (disk s) @ [WR f (pageNo b)]
                   else d = disk s"
                  using w wok f file_writePage_facts(3) [of f "pageNo b" "bufPool s ! h" "disk s" wret d]
                    file_writePage_facts(5) [of f "pageNo b" "bufPool s ! h" "disk s" wret d]
                  by (auto split: if_splits)
                have "victim_post s h
                    (s1\<lparr>disk := d, hashTable := ht, bufTable := (bufTable s)[h := Clear b]\<rparr>)"
                  using v np f dk by (simp add: victim_post_def Let_def s1 b_def [symmetric])
                then show ?thesis using hlt len rd
                  by (simp add: y allocBuf_post_def s1 b_def)
              qed
            qed
          qed
        qed
      qed
    qed
  qed
qed

lemma allocBuf_post_holds:
  "allocBuf s = Some y \<Longrightarrow> wf_bufs s \<Longrightarrow> allocBuf_post s y"
  using allocBuf_loop_post [of 0 s y] by (simp add: allocBuf_def)

section \<open>Coherence of index and frame table\<close>

lemma allocBuf_post_OK:
  assumes "allocBuf_post s (OK, fr, s')"
  obtains frame where "fr = Some frame" "frame < numBufs s"
    "\<forall>i<numBufs s. i \<noteq> frame \<longrightarrow> eq_upto_refbit (bufTable s ! i) (bufTable s' ! i)"
    "bufTable s' ! frame = Clear (bufTable s ! frame)"
    "victim_post s frame s'"
    "numBufs s' = numBufs s" "bufPool s' = bufPool s"
    "length (bufTable s') = length (bufTable s)" "reads (disk s') = reads (disk s)"
  using assms by (cases fr) (auto simp: allocBuf_post_def)

lemma victim_post_hash:
  assumes "victim_post s frame s'"
  shows "hashTable s' k = Some fr \<Longrightarrow> hashTable s k = Some fr"
  using assms
  by (auto simp: victim_post_def Let_def split: if_splits)

lemma allocBuf_post_coherent:
  assumes post: "allocBuf_post s (OK, Some frame, s')"
    and wf: "wf_bufs s" and co: "coherent s"
  shows "wf_bufs s'" and "coherent s'"
    and "\<not> valid (bufTable s' ! frame)" and "\<forall>k. hashTable s' k \<noteq> Some frame"
proof -
  from post have flt: "frame < numBufs s"
    and oth: "\<And>i. i < numBufs s \<Longrightarrow> i \<noteq> frame \<Longrightarrow> eq_upto_refbit (bufTable s ! i) (bufTable s' ! i)"
    and clr: "bufTable s' ! frame = Clear (bufTable s ! frame)"
    and vic: "victim_post s frame s'"
    and same: "numBufs s' = numBufs s" "bufPool s' = bufPool s"
      "length (bufTable s') = length (bufTable s)"
    by (auto elim!: allocBuf_post_OK)
  from wf have fno: "\<And>i. i < numBufs s \<Longrightarrow> frameNo (bufTable s ! i) = i"
    and len: "length (bufTable s) = numBufs s" "length (bufPool s) = numBufs s"
    by (simp_all add: wf_bufs_def)
  from co have co1: "\<And>i. i < numBufs s \<Longrightarrow> valid (bufTable s ! i) \<Longrightarrow>
        \<exists>f. file (bufTable s ! i) = Some f \<and> hashTable s (f, pageNo (bufTable s ! i)) = Some i"
    using fno by (auto simp: coherent_def)
  from co have co2: "\<And>f p fr. hashTable s (f, p) = Some fr \<Longrightarrow>
          fr < numBufs s \<and> valid (bufTable s ! fr)
          \<and> file (bufTable s ! fr) = Some f \<and> pageNo (bufTable s ! fr) = p"
    by (auto simp: coherent_def)
  have fno': "\<And>i. i < numBufs s \<Longrightarrow> frameNo (bufTable s' ! i) = i"
  proof -
    fix i assume i: "i < numBufs s"
    show "frameNo (bufTable s' ! i) = i"
    proof (cases "i = frame")
      case True
      then show ?thesis using clr fno [OF i] by (simp add: Clear_def)
    next
      case False
      from eq_upto_refbit_fields(3) [OF oth [OF i False]] fno [OF i] show ?thesis by simp
    qed
  qed
  show wf': "wf_bufs s'" using fno' same len by (simp add: wf_bufs_def)
  show nv: "\<not> valid (bufTable s' ! frame)" using clr by (simp add: Clear_def)
  have sub: "\<And>k fr. hashTable s' k = Some fr \<Longrightarrow> hashTable s k = Some fr"
    using victim_post_hash [OF vic] .
  have notframe: "\<And>f p fr. hashTable s' (f, p) = Some fr \<Longrightarrow> fr \<noteq> frame"
  proof
    fix f p fr assume h': "hashTable s' (f, p) = Some fr" and e: "fr = frame"
    from sub [OF h'] have h: "hashTable s (f, p) = Some frame" using e by simp
    from co2 [OF h] have "valid (bufTable s ! frame)" "file (bufTable s ! frame) = Some f"
      "pageNo (bufTable s ! frame) = p" by auto
    with vic have "hashTable s' = (hashTable s)((f, p) := None)"
      by (auto simp: victim_post_def Let_def)
    with h' show False by simp
  qed
  show "\<forall>k. hashTable s' k \<noteq> Some frame"
    using notframe by (metis surj_pair)
  show "coherent s'"
    unfolding coherent_def
  proof (intro conjI allI impI)
    fix i assume i: "i < numBufs s'" and v: "valid (bufTable s' ! i)"
    from i same have i': "i < numBufs s" by simp
    from v nv have ne: "i \<noteq> frame" by auto
    note e = eq_upto_refbit_fields [OF oth [OF i' ne]]
    from v e have "valid (bufTable s ! i)" by simp
    from co1 [OF i' this] obtain f where f: "file (bufTable s ! i) = Some f"
      "hashTable s (f, pageNo (bufTable s ! i)) = Some i" by auto
    have "hashTable s' (f, pageNo (bufTable s ! i)) = Some i"
    proof (cases "valid (bufTable s ! frame)")
      case False
      with vic f show ?thesis by (simp add: victim_post_def Let_def)
    next
      case True
      from co1 [OF flt True] obtain fv where fv: "file (bufTable s ! frame) = Some fv"
        "hashTable s (fv, pageNo (bufTable s ! frame)) = Some frame" by auto
      with f ne have "(f, pageNo (bufTable s ! i)) \<noteq> (fv, pageNo (bufTable s ! frame))"
        by auto
      with vic True fv f show ?thesis by (auto simp: victim_post_def Let_def)
    qed
    with f e fno' [OF i']
    show "\<exists>f. file (bufTable s' ! i) = Some f
        \<and> hashTable s' (f, pageNo (bufTable s' ! i)) = Some (frameNo (bufTable s' ! i))"
      by simp
  next
    fix f p fr assume h': "hashTable s' (f, p) = Some fr"
    from sub [OF h'] have h: "hashTable s (f, p) = Some fr" .
    from co2 [OF h] have c: "fr < numBufs s" "valid (bufTable s ! fr)"
      "file (bufTable s ! fr) = Some f" "pageNo (bufTable s ! fr) = p" by auto
    from notframe [OF h'] have ne: "fr \<noteq> frame" .
    note e = eq_upto_refbit_fields [OF oth [OF c(1) ne]]
    from c e same show "fr < numBufs s'" "valid (bufTable s' ! fr)"
      "file (bufTable s' ! fr) = Some f" "pageNo (bufTable s' ! fr) = p" by simp_all
  qed
qed

lemma nth_list_update_if:
  "xs[i := x] ! j = (if i = j \<and> i < length xs then x else xs ! j)"
  by (cases "i < length xs") (auto simp: nth_list_update list_update_beyond)

lemma coherentD1:
  assumes "coherent s" "wf_bufs s" "i < numBufs s" "valid (bufTable s ! i)"
  shows "\<exists>f. file (bufTable s ! i) = Some f \<and> hashTable s (f, pageNo (bufTable s ! i)) = Some i"
  using assms by (auto simp: coherent_def wf_bufs_def)

lemma coherentD2:
  assumes "coherent s" "hashTable s (f, p) = Some fr"
  shows "fr < numBufs s" "valid (bufTable s ! fr)"
    "file (bufTable s ! fr) = Some f" "pageNo (bufTable s ! fr) = p"
  using assms by (auto simp: coherent_def)

lemma wf_bufs_upd:
  assumes "wf_bufs s" "numBufs s' = numBufs s" "length (bufPool s') = length (bufPool s)"
    "bufTable s' = (bufTable s)[fr := b']" "fr < numBufs s \<Longrightarrow> frameNo b' = fr"
  shows "wf_bufs s'"
  using assms by (auto simp: wf_bufs_def nth_list_update_if)

lemma coherent_keep:
  assumes co: "coherent s" and wf: "wf_bufs s"
    and s': "numBufs s' = numBufs s" "hashTable s' = hashTable s"
      "bufTable s' = (bufTable s)[fr := b']"
    and b': "valid b' = valid (bufTable s ! fr)" "file b' = file (bufTable s ! fr)"
      "pageNo b' = pageNo (bufTable s ! fr)" "frameNo b' = frameNo (bufTable s ! fr)"
  shows "coherent s'"
proof -
  from wf have len: "length (bufTable s) = numBufs s" by (simp add: wf_bufs_def)
  have key: "\<And>i. i < numBufs s \<Longrightarrow>
      valid (bufTable s' ! i) = valid (bufTable s ! i)
      \<and> file (bufTable s' ! i) = file (bufTable s ! i)
      \<and> pageNo (bufTable s' ! i) = pageNo (bufTable s ! i)
      \<and> frameNo (bufTable s' ! i) = frameNo (bufTable s ! i)"
    using s' b' len by (simp add: nth_list_update_if)
  show ?thesis
    unfolding coherent_def
  proof (intro conjI allI impI)
    fix j assume j: "j < numBufs s'" and v: "valid (bufTable s' ! j)"
    from j s' have j': "j < numBufs s" by simp
    from v key [OF j'] have "valid (bufTable s ! j)" by simp
    from coherentD1 [OF co wf j' this] key [OF j'] s' wf j'
    show "\<exists>f. file (bufTable s' ! j) = Some f
        \<and> hashTable s' (f, pageNo (bufTable s' ! j)) = Some (frameNo (bufTable s' ! j))"
      by (simp add: wf_bufs_def)
  next
    fix g q k assume h': "hashTable s' (g, q) = Some k"
    with s' have h: "hashTable s (g, q) = Some k" by simp
    note c = coherentD2 [OF co h]
    from c key [OF c(1)] s'
    show "k < numBufs s'" "valid (bufTable s' ! k)"
      "file (bufTable s' ! k) = Some g" "pageNo (bufTable s' ! k) = q" by simp_all
  qed
qed

lemma coherent_evict:
  assumes co: "coherent s" and wf: "wf_bufs s"
    and i: "i < numBufs s" "valid (bufTable s ! i)" "file (bufTable s ! i) = Some f"
      "pageNo (bufTable s ! i) = p"
    and s': "numBufs s' = numBufs s" "hashTable s' = (hashTable s)((f, p) := None)"
      "bufTable s' = (bufTable s)[i := b']"
    and b': "\<not> valid b'"
  shows "coherent s'"
proof -
  from wf have len: "length (bufTable s) = numBufs s" by (simp add: wf_bufs_def)
  from coherentD1 [OF co wf i(1,2)] i have hi: "hashTable s (f, p) = Some i" by simp
  show ?thesis
    unfolding coherent_def
  proof (intro conjI allI impI)
    fix j assume j: "j < numBufs s'" and v: "valid (bufTable s' ! j)"
    from j s' have j': "j < numBufs s" by simp
    from v b' s' len j' have ne: "j \<noteq> i" by (auto simp: nth_list_update)
    then have same: "bufTable s' ! j = bufTable s ! j" using s' by simp
    with v have "valid (bufTable s ! j)" by simp
    from coherentD1 [OF co wf j' this] obtain g where g: "file (bufTable s ! j) = Some g"
      "hashTable s (g, pageNo (bufTable s ! j)) = Some j" by auto
    with hi ne have "(g, pageNo (bufTable s ! j)) \<noteq> (f, p)" by auto
    with g s' same co j' wf
    show "\<exists>f. file (bufTable s' ! j) = Some f
        \<and> hashTable s' (f, pageNo (bufTable s' ! j)) = Some (frameNo (bufTable s' ! j))"
      by (auto simp: wf_bufs_def)
  next
    fix g q fr assume h': "hashTable s' (g, q) = Some fr"
    with s' have ne: "(g, q) \<noteq> (f, p)" and h: "hashTable s (g, q) = Some fr"
      by (auto split: if_splits)
    note c = coherentD2 [OF co h]
    from c ne i have "fr \<noteq> i" by auto
    then have "bufTable s' ! fr = bufTable s ! fr" using s' by simp
    with c s' show "fr < numBufs s'" "valid (bufTable s' ! fr)"
      "file (bufTable s' ! fr) = Some g" "pageNo (bufTable s' ! fr) = q" by simp_all
  qed
qed

lemma coherent_install:
  assumes co: "coherent s" and wf: "wf_bufs s"
    and fr: "frame < numBufs s" "\<not> valid (bufTable s ! frame)" "hashTable s (f, p) = None"
    and s': "numBufs s' = numBufs s" "hashTable s' = (hashTable s)((f, p) \<mapsto> frame)"
      "bufTable s' = (bufTable s)[frame := b']"
    and b': "valid b'" "file b' = Some f" "pageNo b' = p" "frameNo b' = frame"
  shows "coherent s'"
proof -
  from wf have len: "length (bufTable s) = numBufs s" by (simp add: wf_bufs_def)
  show ?thesis
    unfolding coherent_def
  proof (intro conjI allI impI)
    fix j assume j: "j < numBufs s'" and v: "valid (bufTable s' ! j)"
    from j s' have j': "j < numBufs s" by simp
    show "\<exists>f. file (bufTable s' ! j) = Some f
        \<and> hashTable s' (f, pageNo (bufTable s' ! j)) = Some (frameNo (bufTable s' ! j))"
    proof (cases "j = frame")
      case True
      with s' b' len fr show ?thesis by simp
    next
      case False
      then have same: "bufTable s' ! j = bufTable s ! j" using s' by simp
      with v have "valid (bufTable s ! j)" by simp
      from coherentD1 [OF co wf j' this] obtain g where g: "file (bufTable s ! j) = Some g"
        "hashTable s (g, pageNo (bufTable s ! j)) = Some j" by auto
      with fr have "(g, pageNo (bufTable s ! j)) \<noteq> (f, p)" by auto
      with g s' same j' wf show ?thesis by (auto simp: wf_bufs_def)
    qed
  next
    fix g q k assume h': "hashTable s' (g, q) = Some k"
    have "k < numBufs s' \<and> valid (bufTable s' ! k)
        \<and> file (bufTable s' ! k) = Some g \<and> pageNo (bufTable s' ! k) = q"
    proof (cases "(g, q) = (f, p)")
      case True
      with h' s' have "k = frame" by simp
      with True s' b' fr len show ?thesis by simp
    next
      case False
      with h' s' have h: "hashTable s (g, q) = Some k" by (auto split: if_splits)
      note c = coherentD2 [OF co h]
      from c fr have "k \<noteq> frame" by auto
      then have "bufTable s' ! k = bufTable s ! k" using s' by simp
      with c s' show ?thesis by simp
    qed
    then show "k < numBufs s'" "valid (bufTable s' ! k)"
      "file (bufTable s' ! k) = Some g" "pageNo (bufTable s' ! k) = q" by simp_all
  qed
qed

lemma unPinPage_cases:
  assumes "unPinPage f p d s = (st, s')"
  shows "(hashTable s (f, p) = None \<and> st = HASHNOTFOUND \<and> s' = s)
    \<or> (\<exists>k. hashTable s (f, p) = Some k \<and> pinCnt (bufTable s ! k) = 0
          \<and> st = PAGENOTPINNED \<and> s' = s)
    \<or> (\<exists>k. hashTable s (f, p) = Some k \<and> pinCnt (bufTable s ! k) \<noteq> 0 \<and> st = OK
          \<and> s' = s\<lparr>bufTable := (bufTable s)
                [k := (bufTable s ! k)\<lparr>dirty := (d \<or> dirty (bufTable s ! k)),
                                        pinCnt := pinCnt (bufTable s ! k) - 1\<rparr>]\<rparr>)"
  using assms
  by (cases "hashTable s (f, p)") (auto simp: unPinPage_def lookup_def Let_def split: if_splits)

lemma unPinPage_inv:
  assumes "unPinPage f p d s = (st, s')" "wf_bufs s" "coherent s"
  shows "wf_bufs s'" "coherent s'"
proof -
  from unPinPage_cases [OF assms(1)]
  have "wf_bufs s' \<and> coherent s'"
  proof (elim disjE exE conjE)
    fix k
    assume k: "hashTable s (f, p) = Some k"
      and s': "s' = s\<lparr>bufTable := (bufTable s)
                [k := (bufTable s ! k)\<lparr>dirty := (d \<or> dirty (bufTable s ! k)),
                                        pinCnt := pinCnt (bufTable s ! k) - 1\<rparr>]\<rparr>"
    from coherentD2 [OF assms(3) k] have klt: "k < numBufs s" by simp
    define b' where "b' = (bufTable s ! k)\<lparr>dirty := (d \<or> dirty (bufTable s ! k)),
                                        pinCnt := pinCnt (bufTable s ! k) - 1\<rparr>"
    have "wf_bufs s'"
      by (rule wf_bufs_upd [OF assms(2), where fr = k and b' = b'])
         (use assms(2) in \<open>auto simp: s' b'_def wf_bufs_def\<close>)
    moreover have "coherent s'"
      by (rule coherent_keep [OF assms(3,2), where fr = k and b' = b']) (simp_all add: s' b'_def)
    ultimately show ?thesis by simp
  qed (use assms in simp_all)
  then show "wf_bufs s'" "coherent s'" by simp_all
qed

lemma coherent_cong:
  assumes "coherent s" "numBufs s' = numBufs s" "bufTable s' = bufTable s"
    "hashTable s' = hashTable s"
  shows "coherent s'"
  using assms by (simp add: coherent_def)

lemma wf_bufs_cong:
  assumes "wf_bufs s" "numBufs s' = numBufs s" "bufTable s' = bufTable s"
    "length (bufPool s') = length (bufPool s)"
  shows "wf_bufs s'"
  using assms by (simp add: wf_bufs_def)

lemma disposePage_cases:
  assumes "disposePage f p s = (st, s')"
  shows "\<exists>d. file_disposePage f p (disk s) = (st, d) \<and>
    ((hashTable s (f, p) = None \<and> s' = s\<lparr>hashTable := hashTable s, disk := d\<rparr>)
     \<or> (\<exists>k. hashTable s (f, p) = Some k
           \<and> s' = s\<lparr>bufTable := (bufTable s)[k := Clear (bufTable s ! k)],
                    hashTable := (hashTable s)((f, p) := None), disk := d\<rparr>))"
  using assms
  by (cases "hashTable s (f, p)")
     (auto simp: disposePage_def lookup_def remove_h_def Let_def split: prod.splits)

lemma disposePage_inv:
  assumes "disposePage f p s = (st, s')" "wf_bufs s" "coherent s"
  shows "wf_bufs s'" "coherent s'"
proof -
  from disposePage_cases [OF assms(1)] obtain d where
    c: "(hashTable s (f, p) = None \<and> s' = s\<lparr>hashTable := hashTable s, disk := d\<rparr>)
     \<or> (\<exists>k. hashTable s (f, p) = Some k
           \<and> s' = s\<lparr>bufTable := (bufTable s)[k := Clear (bufTable s ! k)],
                    hashTable := (hashTable s)((f, p) := None), disk := d\<rparr>)" by auto
  then have "wf_bufs s' \<and> coherent s'"
  proof (elim disjE exE conjE)
    assume "s' = s\<lparr>hashTable := hashTable s, disk := d\<rparr>"
    then show ?thesis
      using coherent_cong [OF assms(3), of s'] wf_bufs_cong [OF assms(2), of s'] by simp
  next
    fix k
    assume k: "hashTable s (f, p) = Some k"
      and s': "s' = s\<lparr>bufTable := (bufTable s)[k := Clear (bufTable s ! k)],
                    hashTable := (hashTable s)((f, p) := None), disk := d\<rparr>"
    note c = coherentD2 [OF assms(3) k]
    have "wf_bufs s'"
      by (rule wf_bufs_upd [OF assms(2), where fr = k and b' = "Clear (bufTable s ! k)"])
         (use assms(2) in \<open>auto simp: s' wf_bufs_def Clear_def\<close>)
    moreover have "coherent s'"
      by (rule coherent_evict [OF assms(3,2) c(1,2,3,4), where b' = "Clear (bufTable s ! k)"])
         (simp_all add: s' Clear_def)
    ultimately show ?thesis by simp
  qed
  then show "wf_bufs s'" "coherent s'" by simp_all
qed

lemma Set_frameNo_eq:
  "(Set f p b)\<lparr>frameNo := k\<rparr> = \<lparr>file = Some f, pageNo = p, frameNo = k, pinCnt = 1,
                        dirty = False, valid = True, refbit = True\<rparr>"
  by (simp add: Set_def)

lemma readPage_OK_cases:
  assumes "readPage f p s = Some (OK, fr, s')"
  shows "\<exists>k. fr = Some k \<and> (readPage_hit f p s k s' \<or> readPage_miss f p s k s')"
proof (cases "hashTable s (f, p)")
  case (Some k)
  then have "lookup (hashTable s) (Some f) p = (OK, Some k)" by (simp add: lookup_def)
  with assms have "fr = Some k \<and> readPage_hit f p s k s'"
    using Some by (simp add: readPage_def Let_def readPage_hit_def)
  then show ?thesis by blast
next
  case None
  then have lk: "lookup (hashTable s) (Some f) p = (HASHNOTFOUND, None)"
    by (simp add: lookup_def)
  with assms obtain ast afr s1 where a: "allocBuf s = Some (ast, afr, s1)"
    by (cases "allocBuf s") (auto simp: readPage_def)
  with assms lk have aok: "ast = OK"
    by (auto simp: readPage_def split: if_splits)
  with assms lk a obtain k where k: "afr = Some k"
    by (cases afr) (auto simp: readPage_def)
  obtain content where c: "dpages (disk s1) (f, p) = Some content"
  proof (cases "dpages (disk s1) (f, p)")
    case None
    then have "file_readPage f p (disk s1)
        = (BADPAGENO, None, (disk s1)\<lparr>ioLog := ioLog (disk s1) @ [RD f p]\<rparr>)"
      by (simp add: file_readPage_def Let_def)
    with assms lk a aok k have False
      by (simp add: readPage_def split: prod.splits)
    then show ?thesis ..
  next
    case (Some c)
    then show ?thesis by (rule that)
  qed
  then have rd: "file_readPage f p (disk s1)
        = (OK, Some content, (disk s1)\<lparr>ioLog := ioLog (disk s1) @ [RD f p]\<rparr>)"
    by (simp add: file_readPage_def Let_def)
  have h1: "hashTable s1 (f, p) = None"
  proof (cases "hashTable s1 (f, p)")
    case (Some old)
    then have "insert_h (hashTable s1) f p k = (HASHTBLERROR, hashTable s1)"
      by (simp add: insert_h_def)
    with assms lk a aok k rd have False
      by (simp add: readPage_def Let_def)
    then show ?thesis ..
  qed simp
  then have ins: "insert_h (hashTable s1) f p k = (OK, (hashTable s1)((f, p) \<mapsto> k))"
    by (simp add: insert_h_def)
  from assms lk a aok k rd ins
  have "fr = Some k" and "s' = s1\<lparr>disk := (disk s1)\<lparr>ioLog := ioLog (disk s1) @ [RD f p]\<rparr>,
                 bufPool := (bufPool s1)[k := content],
                 hashTable := (hashTable s1)((f, p) \<mapsto> k),
                 bufTable := (bufTable s1)[k := (Set f p (bufTable s1 ! k))\<lparr>frameNo := k\<rparr>]\<rparr>"
    by (auto simp: readPage_def Let_def)
  with None a aok k c h1 have "fr = Some k \<and> readPage_miss f p s k s'"
    by (simp add: readPage_miss_def Set_frameNo_eq)
  then show ?thesis by blast
qed

lemma readPage_hit_inv:
  assumes h: "readPage_hit f p s k s'" and wf: "wf_bufs s" and co: "coherent s"
  shows "wf_bufs s'" "coherent s'"
proof -
  from h have hk: "hashTable s (f, p) = Some k"
    and s': "s' = s\<lparr>bufTable := (bufTable s)
               [k := (bufTable s ! k)\<lparr>refbit := True, pinCnt := pinCnt (bufTable s ! k) + 1\<rparr>]\<rparr>"
    by (simp_all add: readPage_hit_def)
  define b' where "b' = (bufTable s ! k)\<lparr>refbit := True, pinCnt := pinCnt (bufTable s ! k) + 1\<rparr>"
  show "wf_bufs s'"
    by (rule wf_bufs_upd [OF wf, where fr = k and b' = b'])
       (use wf in \<open>auto simp: s' b'_def wf_bufs_def\<close>)
  show "coherent s'"
    by (rule coherent_keep [OF co wf, where fr = k and b' = b']) (simp_all add: s' b'_def)
qed

lemma readPage_miss_inv:
  assumes m: "readPage_miss f p s k s'" and wf: "wf_bufs s" and co: "coherent s"
  shows "wf_bufs s'" "coherent s'"
proof -
  from m obtain s1 content where a: "allocBuf s = Some (OK, Some k, s1)"
    and h1: "hashTable s1 (f, p) = None"
    and s': "numBufs s' = numBufs s1" "bufPool s' = (bufPool s1)[k := content]"
      "hashTable s' = (hashTable s1)((f, p) \<mapsto> k)"
      "bufTable s' = (bufTable s1)
                 [k := \<lparr>file = Some f, pageNo = p, frameNo = k, pinCnt = 1,
                        dirty = False, valid = True, refbit = True\<rparr>]"
    by (auto simp: readPage_miss_def)
  from allocBuf_post_holds [OF a wf] have post: "allocBuf_post s (OK, Some k, s1)" .
  note c1 = allocBuf_post_coherent [OF post wf co]
  from post have klt: "k < numBufs s1" by (auto elim!: allocBuf_post_OK)
  define b' where "b' = \<lparr>file = Some f, pageNo = p, frameNo = k, pinCnt = 1,
                        dirty = False, valid = True, refbit = True\<rparr>"
  show "wf_bufs s'"
    by (rule wf_bufs_upd [OF c1(1), where fr = k and b' = b']) (simp_all add: s' b'_def)
  show "coherent s'"
    by (rule coherent_install [OF c1(2,1) klt c1(3) h1, where b' = b'])
       (simp_all add: s' b'_def)
qed

lemma readPage_inv:
  assumes "readPage f p s = Some (OK, fr, s')" "wf_bufs s" "coherent s"
  shows "wf_bufs s'" "coherent s'"
  using readPage_OK_cases [OF assms(1)] readPage_hit_inv [OF _ assms(2,3)]
    readPage_miss_inv [OF _ assms(2,3)] by blast+

text \<open>The OK outcome of allocPage, field by field.\<close>

lemma allocPage_OK_cases:
  assumes "allocPage f s = Some (OK, r, s')"
  shows "\<exists>k d s1. r = Some (nalloc (disk s) f, k)
     \<and> file_allocatePage f (disk s) = (OK, nalloc (disk s) f, d)
     \<and> allocBuf (s\<lparr>disk := d\<rparr>) = Some (OK, Some k, s1)
     \<and> hashTable s1 (f, nalloc (disk s) f) = None
     \<and> s' = s1\<lparr>hashTable := (hashTable s1)((f, nalloc (disk s) f) \<mapsto> k),
              bufTable := (bufTable s1)[k := Set f (nalloc (disk s) f) (bufTable s1 ! k)]\<rparr>"
proof -
  define n where "n = nalloc (disk s) f"
  obtain d where d: "file_allocatePage f (disk s) = (OK, n, d)"
    by (simp add: file_allocatePage_def Let_def n_def)
  with assms obtain ast afr s1 where a: "allocBuf (s\<lparr>disk := d\<rparr>) = Some (ast, afr, s1)"
    by (cases "allocBuf (s\<lparr>disk := d\<rparr>)") (auto simp: allocPage_def)
  with assms d have aok: "ast = OK"
    by (auto simp: allocPage_def split: if_splits)
  with assms d a obtain k where k: "afr = Some k"
    by (cases afr) (auto simp: allocPage_def)
  have h1: "hashTable s1 (f, n) = None"
  proof (cases "hashTable s1 (f, n)")
    case (Some old)
    then have "insert_h (hashTable s1) f n k = (HASHTBLERROR, hashTable s1)"
      by (simp add: insert_h_def)
    with assms d a aok k have False
      by (simp add: allocPage_def Let_def)
    then show ?thesis ..
  qed simp
  then have ins: "insert_h (hashTable s1) f n k = (OK, (hashTable s1)((f, n) \<mapsto> k))"
    by (simp add: insert_h_def)
  from assms d a aok k ins
  have "r = Some (n, k)" and "s' = s1\<lparr>hashTable := (hashTable s1)((f, n) \<mapsto> k),
              bufTable := (bufTable s1)[k := Set f n (bufTable s1 ! k)]\<rparr>"
    by (auto simp: allocPage_def Let_def)
  with d a aok k h1 show ?thesis by (simp add: n_def)
qed

lemma allocPage_inv:
  assumes ok: "allocPage f s = Some (OK, r, s')" and wf: "wf_bufs s" and co: "coherent s"
  shows "wf_bufs s'" "coherent s'"
proof -
  from allocPage_OK_cases [OF ok] obtain k d s1 where
    a: "allocBuf (s\<lparr>disk := d\<rparr>) = Some (OK, Some k, s1)"
    and h1: "hashTable s1 (f, nalloc (disk s) f) = None"
    and s': "s' = s1\<lparr>hashTable := (hashTable s1)((f, nalloc (disk s) f) \<mapsto> k),
              bufTable := (bufTable s1)[k := Set f (nalloc (disk s) f) (bufTable s1 ! k)]\<rparr>"
    by blast
  have wf0: "wf_bufs (s\<lparr>disk := d\<rparr>)" by (rule wf_bufs_cong [OF wf]) simp_all
  have co0: "coherent (s\<lparr>disk := d\<rparr>)" by (rule coherent_cong [OF co]) simp_all
  from allocBuf_post_holds [OF a wf0] have post: "allocBuf_post (s\<lparr>disk := d\<rparr>) (OK, Some k, s1)" .
  note c1 = allocBuf_post_coherent [OF post wf0 co0]
  from post have klt: "k < numBufs s1" by (auto elim!: allocBuf_post_OK)
  with c1(1) have fk: "frameNo (bufTable s1 ! k) = k" by (simp add: wf_bufs_def)
  show "wf_bufs s'"
    by (rule wf_bufs_upd [OF c1(1), where fr = k and b' = "Set f (nalloc (disk s) f) (bufTable s1 ! k)"])
       (simp_all add: s' Set_def fk)
  show "coherent s'"
    by (rule coherent_install [OF c1(2,1) klt c1(3) h1,
          where b' = "Set f (nalloc (disk s) f) (bufTable s1 ! k)"])
       (simp_all add: s' Set_def fk)
qed

lemma flushFile_loop_inv:
  "flushFile_loop f js s = (st, s') \<Longrightarrow> wf_bufs s \<Longrightarrow> coherent s \<Longrightarrow>
   \<forall>i\<in>set js. i < numBufs s \<Longrightarrow> wf_bufs s' \<and> coherent s'"
proof (induction js arbitrary: s)
  case Nil
  then show ?case by simp
next
  case (Cons i rest)
  note wf = Cons.prems(2) and co = Cons.prems(3)
  from Cons.prems(4) have ilt: "i < numBufs s" and rest: "\<forall>j\<in>set rest. j < numBufs s" by simp_all
  define b where "b = bufTable s ! i"
  show ?case
  proof (cases "valid b \<and> file b = Some f")
    case True
    note vf = True
    show ?thesis
    proof (cases "pinCnt b > 0")
      case True
      with vf Cons.prems(1) have "s' = s" by (simp add: b_def Let_def)
      with wf co show ?thesis by simp
    next
      case False
      obtain wst d where w: "(if dirty b
                 then file_writePage f (pageNo b) (bufPool s ! i) (disk s)
                 else (OK, disk s)) = (wst, d)" by fastforce
      show ?thesis
      proof (cases "wst = OK")
        case False
        with vf \<open>\<not> pinCnt b > 0\<close> w Cons.prems(1) have "s' = s\<lparr>disk := d\<rparr>"
          by (auto simp: b_def Let_def split: if_splits)
        with wf co show ?thesis
          using wf_bufs_cong [OF wf, of s'] coherent_cong [OF co, of s'] by simp
      next
        case True
        from vf coherentD1 [OF co wf ilt] have hi: "hashTable s (f, pageNo b) = Some i"
          by (auto simp: b_def)
        then have rm: "remove_h (hashTable s) (Some f) (pageNo b)
            = (OK, (hashTable s)((f, pageNo b) := None))"
          by (simp add: remove_h_def)
        define b2 where "b2 = (if dirty b then b\<lparr>dirty := False\<rparr> else b)
             \<lparr>file := None, pageNo := - 1, valid := False\<rparr>"
        define s2 where "s2 = s\<lparr>disk := d, hashTable := (hashTable s)((f, pageNo b) := None),
             bufTable := (bufTable s)[i := b2]\<rparr>"
        from vf \<open>\<not> pinCnt b > 0\<close> w True rm Cons.prems(1)
        have run: "flushFile_loop f rest s2 = (st, s')"
          by (auto simp: b_def [symmetric] Let_def s2_def b2_def split: if_splits)
        have wf2: "wf_bufs s2"
          by (rule wf_bufs_upd [OF wf, where fr = i and b' = b2])
             (use wf ilt in \<open>auto simp: s2_def b2_def b_def wf_bufs_def\<close>)
        have co2: "coherent s2"
          by (rule coherent_evict [OF co wf ilt, where f = f and p = "pageNo b" and b' = b2])
             (use vf in \<open>auto simp: s2_def b2_def b_def\<close>)
        from rest have "\<forall>j\<in>set rest. j < numBufs s2" by (simp add: s2_def)
        from Cons.IH [OF run wf2 co2 this] show ?thesis .
      qed
    qed
  next
    case False
    show ?thesis
    proof (cases "\<not> valid b \<and> file b = Some f")
      case True
      with Cons.prems(1) have "s' = s" by (simp add: b_def Let_def)
      with wf co show ?thesis by simp
    next
      case nb: False
      with False Cons.prems(1) have "flushFile_loop f rest s = (st, s')"
        by (auto simp: b_def Let_def)
      from Cons.IH [OF this wf co rest] show ?thesis .
    qed
  qed
qed

lemma flushFile_inv:
  assumes "flushFile f s = (st, s')" "wf_bufs s" "coherent s"
  shows "wf_bufs s'" "coherent s'"
  using flushFile_loop_inv [of f "[0..<numBufs s]" s st s'] assms
  by (simp_all add: flushFile_def)

lemma allocBuf_inv:
  assumes "allocBuf s = Some (OK, fr, s')" "wf_bufs s" "coherent s"
  shows "wf_bufs s'" "coherent s'"
proof -
  from allocBuf_post_holds [OF assms(1,2)] have post: "allocBuf_post s (OK, fr, s')" .
  then obtain k where "fr = Some k" by (auto elim!: allocBuf_post_OK)
  with post allocBuf_post_coherent [of s k s'] assms
  show "wf_bufs s'" "coherent s'" by simp_all
qed

lemma BufMgr_new_inv: "wf_bufs (BufMgr_new n d) \<and> coherent (BufMgr_new n d)"
  by (simp add: wf_bufs_def coherent_def BufMgr_new_def)
section \<open>The invariants at every status\<close>

lemma allocBuf_post_fail:
  assumes post: "allocBuf_post s (st, None, s')" and wf: "wf_bufs s" and co: "coherent s"
  shows "wf_bufs s'" "coherent s'"
proof -
  from post have n: "numBufs s' = numBufs s" "bufPool s' = bufPool s"
    "length (bufTable s') = length (bufTable s)" "hashTable s' = hashTable s"
    and eq: "\<And>i. i < numBufs s \<Longrightarrow> eq_upto_refbit (bufTable s ! i) (bufTable s' ! i)"
    by (simp_all add: allocBuf_post_def)
  note ff = eq_upto_refbit_fields [OF eq]
  show "wf_bufs s'" using wf n ff(3) by (simp add: wf_bufs_def)
  have "\<forall>i<numBufs s'. valid (bufTable s' ! i) \<longrightarrow>
        (\<exists>f. file (bufTable s' ! i) = Some f
           \<and> hashTable s' (f, pageNo (bufTable s' ! i)) = Some (frameNo (bufTable s' ! i)))"
  proof (intro allI impI)
    fix i assume i: "i < numBufs s'" and v: "valid (bufTable s' ! i)"
    from i n have i': "i < numBufs s" by simp
    from v ff(6) [OF i'] have "valid (bufTable s ! i)" by simp
    with co i' obtain f where f: "file (bufTable s ! i) = Some f"
      "hashTable s (f, pageNo (bufTable s ! i)) = Some (frameNo (bufTable s ! i))"
      by (auto simp: coherent_def)
    from f(1) ff(1) [OF i'] have a: "file (bufTable s' ! i) = Some f" by simp
    from f(2) ff(2,3) [OF i'] n
    have b: "hashTable s' (f, pageNo (bufTable s' ! i)) = Some (frameNo (bufTable s' ! i))"
      by simp
    from a b
    show "\<exists>f. file (bufTable s' ! i) = Some f
           \<and> hashTable s' (f, pageNo (bufTable s' ! i)) = Some (frameNo (bufTable s' ! i))"
      by blast
  qed
  moreover have "\<forall>f p fr. hashTable s' (f, p) = Some fr \<longrightarrow>
          fr < numBufs s' \<and> valid (bufTable s' ! fr)
          \<and> file (bufTable s' ! fr) = Some f \<and> pageNo (bufTable s' ! fr) = p"
  proof (intro allI impI)
    fix f p fr assume "hashTable s' (f, p) = Some fr"
    with n have h: "hashTable s (f, p) = Some fr" by simp
    note d = coherentD2 [OF co h]
    from d ff(1,2,6) [OF d(1)] n
    show "fr < numBufs s' \<and> valid (bufTable s' ! fr)
          \<and> file (bufTable s' ! fr) = Some f \<and> pageNo (bufTable s' ! fr) = p" by simp
  qed
  ultimately show "coherent s'" by (simp add: coherent_def)
qed

lemma allocBuf_inv_any:
  assumes a: "allocBuf s = Some (st, fr, s')" and wf: "wf_bufs s" and co: "coherent s"
  shows "wf_bufs s'" "coherent s'"
proof -
  from allocBuf_post_holds [OF a wf] have post: "allocBuf_post s (st, fr, s')" .
  have "wf_bufs s' \<and> coherent s'"
  proof (cases fr)
    case None
    with post allocBuf_post_fail [OF _ wf co] show ?thesis by blast
  next
    case (Some k)
    with post have "st = OK" by (simp add: allocBuf_post_def)
    with a allocBuf_inv [OF _ wf co] show ?thesis by blast
  qed
  then show "wf_bufs s'" "coherent s'" by simp_all
qed

text \<open>
  The ways in which \<open>readPage(f, p)\<close> returns another status than \<open>OK\<close>: the page is
  not resident, and \<open>allocBuf\<close> failed, or the file store refused the read and the page
  was disposed of, or the index refused the new entry.
\<close>

lemma readPage_fail_cases:
  assumes r: "readPage f p s = Some (st, fr, s')" and st: "st \<noteq> OK"
  shows "hashTable s (f, p) = None \<and>
    (\<exists>ast afr s1. allocBuf s = Some (ast, afr, s1) \<and>
       ((ast \<noteq> OK \<and> st = ast \<and> fr = None \<and> s' = s1)
        \<or> (ast = OK \<and> (\<exists>k. afr = Some k) \<and> dpages (disk s1) (f, p) = None \<and> fr = None
             \<and> (st, s') = disposePage f p
                  (s1\<lparr>disk := (disk s1)\<lparr>ioLog := ioLog (disk s1) @ [RD f p]\<rparr>\<rparr>))
        \<or> (ast = OK \<and> (\<exists>k content. afr = Some k \<and> fr = Some k
             \<and> dpages (disk s1) (f, p) = Some content
             \<and> hashTable s1 (f, p) \<noteq> None \<and> st = HASHTBLERROR
             \<and> s' = s1\<lparr>disk := (disk s1)\<lparr>ioLog := ioLog (disk s1) @ [RD f p]\<rparr>,
                      bufPool := (bufPool s1)[k := content]\<rparr>))))"
proof (cases "hashTable s (f, p)")
  case (Some k)
  then have "lookup (hashTable s) (Some f) p = (OK, Some k)" by (simp add: lookup_def)
  with r st show ?thesis by (simp add: readPage_def Let_def)
next
  case None
  then have lk: "lookup (hashTable s) (Some f) p = (HASHNOTFOUND, None)"
    by (simp add: lookup_def)
  with r obtain ast afr s1 where a: "allocBuf s = Some (ast, afr, s1)"
    by (cases "allocBuf s") (auto simp: readPage_def)
  show ?thesis
  proof (cases "ast = OK")
    case False
    with r lk a have "st = ast \<and> fr = None \<and> s' = s1" by (simp add: readPage_def)
    with None a False show ?thesis by simp
  next
    case True
    with r lk a obtain k where k: "afr = Some k"
      by (cases afr) (auto simp: readPage_def)
    show ?thesis
    proof (cases "dpages (disk s1) (f, p)")
      case None
      then have rd: "file_readPage f p (disk s1)
          = (BADPAGENO, None, (disk s1)\<lparr>ioLog := ioLog (disk s1) @ [RD f p]\<rparr>)"
        by (simp add: file_readPage_def Let_def)
      obtain dret s2 where d: "disposePage f p
           (s1\<lparr>disk := (disk s1)\<lparr>ioLog := ioLog (disk s1) @ [RD f p]\<rparr>\<rparr>) = (dret, s2)"
        by fastforce
      from r lk a True k rd d have "st = BADPAGENO" "fr = None" "s' = s2"
        by (simp_all add: readPage_def)
      moreover from None disposePage_cases [OF d] have "dret = BADPAGENO"
        by (auto simp: file_disposePage_def Let_def)
      ultimately show ?thesis using \<open>hashTable s (f, p) = None\<close> a True k None d by simp
    next
      case (Some content)
      then have rd: "file_readPage f p (disk s1)
          = (OK, Some content, (disk s1)\<lparr>ioLog := ioLog (disk s1) @ [RD f p]\<rparr>)"
        by (simp add: file_readPage_def Let_def)
      have h1: "hashTable s1 (f, p) \<noteq> None"
      proof
        assume "hashTable s1 (f, p) = None"
        then have "insert_h (hashTable s1) f p k = (OK, (hashTable s1)((f, p) \<mapsto> k))"
          by (simp add: insert_h_def)
        with r lk a True k rd st show False by (simp add: readPage_def Let_def)
      qed
      then have ins: "insert_h (hashTable s1) f p k = (HASHTBLERROR, hashTable s1)"
        by (auto simp: insert_h_def)
      from r lk a True k rd ins
      have "st = HASHTBLERROR" "fr = Some k"
        "s' = s1\<lparr>disk := (disk s1)\<lparr>ioLog := ioLog (disk s1) @ [RD f p]\<rparr>,
                      bufPool := (bufPool s1)[k := content]\<rparr>"
        by (simp_all add: readPage_def Let_def)
      with \<open>hashTable s (f, p) = None\<close> a True k Some h1 show ?thesis by simp
    qed
  qed
qed

lemma readPage_inv_any:
  assumes r: "readPage f p s = Some (st, fr, s')" and wf: "wf_bufs s" and co: "coherent s"
  shows "wf_bufs s'" "coherent s'"
proof -
  have "wf_bufs s' \<and> coherent s'"
  proof (cases "st = OK")
    case True
    with r readPage_inv [OF _ wf co] show ?thesis by blast
  next
    case False
    from readPage_fail_cases [OF r False] obtain ast afr s1 where
      a: "allocBuf s = Some (ast, afr, s1)"
      and c: "(ast \<noteq> OK \<and> st = ast \<and> fr = None \<and> s' = s1)
        \<or> (ast = OK \<and> (\<exists>k. afr = Some k) \<and> dpages (disk s1) (f, p) = None \<and> fr = None
             \<and> (st, s') = disposePage f p
                  (s1\<lparr>disk := (disk s1)\<lparr>ioLog := ioLog (disk s1) @ [RD f p]\<rparr>\<rparr>))
        \<or> (ast = OK \<and> (\<exists>k content. afr = Some k \<and> fr = Some k
             \<and> dpages (disk s1) (f, p) = Some content
             \<and> hashTable s1 (f, p) \<noteq> None \<and> st = HASHTBLERROR
             \<and> s' = s1\<lparr>disk := (disk s1)\<lparr>ioLog := ioLog (disk s1) @ [RD f p]\<rparr>,
                      bufPool := (bufPool s1)[k := content]\<rparr>))"
      by blast
    note i1 = allocBuf_inv_any [OF a wf co]
    from c show ?thesis
    proof (elim disjE conjE exE)
      assume "s' = s1"
      with i1 show ?thesis by simp
    next
      assume d: "(st, s') = disposePage f p
                  (s1\<lparr>disk := (disk s1)\<lparr>ioLog := ioLog (disk s1) @ [RD f p]\<rparr>\<rparr>)"
      have "wf_bufs (s1\<lparr>disk := (disk s1)\<lparr>ioLog := ioLog (disk s1) @ [RD f p]\<rparr>\<rparr>)"
        by (rule wf_bufs_cong [OF i1(1)]) simp_all
      moreover have "coherent (s1\<lparr>disk := (disk s1)\<lparr>ioLog := ioLog (disk s1) @ [RD f p]\<rparr>\<rparr>)"
        by (rule coherent_cong [OF i1(2)]) simp_all
      ultimately show ?thesis using disposePage_inv [OF d [symmetric]] by simp
    next
      fix k content
      assume s': "s' = s1\<lparr>disk := (disk s1)\<lparr>ioLog := ioLog (disk s1) @ [RD f p]\<rparr>,
                      bufPool := (bufPool s1)[k := content]\<rparr>"
      have "wf_bufs s'" by (rule wf_bufs_cong [OF i1(1)]) (simp_all add: s')
      moreover have "coherent s'" by (rule coherent_cong [OF i1(2)]) (simp_all add: s')
      ultimately show ?thesis by simp
    qed
  qed
  then show "wf_bufs s'" "coherent s'" by simp_all
qed

lemma allocPage_fail_cases:
  assumes r: "allocPage f s = Some (st, res, s')" and st: "st \<noteq> OK"
  shows "\<exists>d ast afr s1. file_allocatePage f (disk s) = (OK, nalloc (disk s) f, d)
     \<and> allocBuf (s\<lparr>disk := d\<rparr>) = Some (ast, afr, s1) \<and> res = None
     \<and> ((ast \<noteq> OK \<and> st = ast \<and> s' = s1)
        \<or> (ast = OK \<and> (\<exists>k. afr = Some k) \<and> hashTable s1 (f, nalloc (disk s) f) \<noteq> None
             \<and> st = HASHTBLERROR \<and> s' = s1))"
proof -
  define n where "n = nalloc (disk s) f"
  obtain d where d: "file_allocatePage f (disk s) = (OK, n, d)"
    by (simp add: file_allocatePage_def Let_def n_def)
  with r obtain ast afr s1 where a: "allocBuf (s\<lparr>disk := d\<rparr>) = Some (ast, afr, s1)"
    by (cases "allocBuf (s\<lparr>disk := d\<rparr>)") (auto simp: allocPage_def)
  show ?thesis
  proof (cases "ast = OK")
    case False
    with r d a have "st = ast \<and> res = None \<and> s' = s1" by (simp add: allocPage_def)
    with d a False show ?thesis by (simp add: n_def)
  next
    case True
    with r d a obtain k where k: "afr = Some k"
      by (cases afr) (auto simp: allocPage_def)
    have h1: "hashTable s1 (f, n) \<noteq> None"
    proof
      assume "hashTable s1 (f, n) = None"
      then have "insert_h (hashTable s1) f n k = (OK, (hashTable s1)((f, n) \<mapsto> k))"
        by (simp add: insert_h_def)
      with r d a True k st show False by (simp add: allocPage_def Let_def)
    qed
    then have ins: "insert_h (hashTable s1) f n k = (HASHTBLERROR, hashTable s1)"
      by (auto simp: insert_h_def)
    from r d a True k ins
    have "st = HASHTBLERROR" "res = None" "s' = s1"
      by (simp_all add: allocPage_def Let_def)
    with d a True k h1 show ?thesis by (simp add: n_def)
  qed
qed

lemma allocPage_inv_any:
  assumes r: "allocPage f s = Some (st, res, s')" and wf: "wf_bufs s" and co: "coherent s"
  shows "wf_bufs s'" "coherent s'"
proof -
  have "wf_bufs s' \<and> coherent s'"
  proof (cases "st = OK")
    case True
    with r allocPage_inv [OF _ wf co] show ?thesis by blast
  next
    case False
    from allocPage_fail_cases [OF r False] obtain d ast afr s1 where
      a: "allocBuf (s\<lparr>disk := d\<rparr>) = Some (ast, afr, s1)"
      and c: "s' = s1" by blast
    have wf0: "wf_bufs (s\<lparr>disk := d\<rparr>)" by (rule wf_bufs_cong [OF wf]) simp_all
    have co0: "coherent (s\<lparr>disk := d\<rparr>)" by (rule coherent_cong [OF co]) simp_all
    note i1 = allocBuf_inv_any [OF a wf0 co0]
    from c i1 show ?thesis by simp
  qed
  then show "wf_bufs s'" "coherent s'" by simp_all
qed


section \<open>Coherence after every operation\<close>

lemma s_one_reached:
  "map_option (\<lambda>(st, fr, s). (st, fr, bufTable s, bufPool s, clockHand s, ioLog (disk s)))
      (readPage 0 0 (BufMgr_new 2 d0))
   = Some (OK, Some 0, bufTable s_one, bufPool s_one, clockHand s_one, ioLog (disk s_one))"
  by code_simp

lemma s_one_inv: "wf_bufs s_one \<and> coherent s_one"
  by (auto simp: wf_bufs_def coherent_def s_one_def less_Suc_eq numeral_2_eq_2 split: if_splits)

lemma s_unp_inv: "wf_bufs s_unp \<and> coherent s_unp"
  by (auto simp: wf_bufs_def coherent_def s_unp_def less_Suc_eq numeral_2_eq_2 split: if_splits)

lemma doOp_inv:
  assumes "doOp c s = Some (st, s')" "wf_bufs s" "coherent s"
  shows "wf_bufs s' \<and> coherent s'"
proof (cases c)
  case (CallReadPage f p)
  with assms(1) obtain fr where "readPage f p s = Some (st, fr, s')"
    by (auto split: option.splits)
  from readPage_inv_any [OF this assms(2,3)] show ?thesis by simp
next
  case (CallAllocPage f)
  with assms(1) obtain r where "allocPage f s = Some (st, r, s')"
    by (auto split: option.splits)
  from allocPage_inv_any [OF this assms(2,3)] show ?thesis by simp
next
  case (CallUnPinPage f p d)
  with assms(1) have "unPinPage f p d s = (st, s')" by simp
  from unPinPage_inv [OF this assms(2,3)] show ?thesis by simp
next
  case (CallDisposePage f p)
  with assms(1) have "disposePage f p s = (st, s')" by simp
  from disposePage_inv [OF this assms(2,3)] show ?thesis by simp
next
  case (CallFlushFile f)
  with assms(1) have "flushFile f s = (st, s')" by simp
  from flushFile_inv [OF this assms(2,3)] show ?thesis by simp
next
  case CallAllocBuf
  with assms(1) obtain fr where "allocBuf s = Some (st, fr, s')"
    by (auto split: option.splits)
  from allocBuf_inv_any [OF this assms(2,3)] show ?thesis by simp
qed

lemma runOps_inv:
  "runOps cs s = Some t \<Longrightarrow> wf_bufs s \<Longrightarrow> coherent s \<Longrightarrow> wf_bufs t \<and> coherent t"
proof (induction cs arbitrary: s)
  case Nil
  then show ?case by simp
next
  case (Cons c cs)
  from Cons.prems(1) obtain st s' where d: "doOp c s = Some (st, s')"
    and r: "runOps cs s' = Some t"
    by (auto split: option.splits)
  from doOp_inv [OF d Cons.prems(2,3)] Cons.IH [OF r] show ?case by simp
qed

text \<open>
  C2. The residency index and the frame table are coherent after every operation of the
  buffer manager: the constructor establishes the shape of the arrays (\<open>wf_bufs\<close>) and
  coherence; \<open>readPage\<close>, \<open>allocPage\<close>, \<open>unPinPage\<close>, \<open>disposePage\<close>, \<open>flushFile\<close> and
  \<open>allocBuf\<close> keep both whatever status they return, \<open>OK\<close> or an error; hence both hold
  in the state after any sequence of calls on a new buffer manager, in particular after
  every call that returns \<open>OK\<close>.
\<close>

theorem coherent_after_OK:
  "(wf_bufs (BufMgr_new n d) \<and> coherent (BufMgr_new n d))
   \<and> (wf_bufs s \<and> coherent s \<longrightarrow>
        (\<forall>f p st fr s'. readPage f p s = Some (st, fr, s') \<longrightarrow> wf_bufs s' \<and> coherent s')
      \<and> (\<forall>f st r s'. allocPage f s = Some (st, r, s') \<longrightarrow> wf_bufs s' \<and> coherent s')
      \<and> (\<forall>f p dty st s'. unPinPage f p dty s = (st, s') \<longrightarrow> wf_bufs s' \<and> coherent s')
      \<and> (\<forall>f p st s'. disposePage f p s = (st, s') \<longrightarrow> wf_bufs s' \<and> coherent s')
      \<and> (\<forall>f st s'. flushFile f s = (st, s') \<longrightarrow> wf_bufs s' \<and> coherent s')
      \<and> (\<forall>st fr s'. allocBuf s = Some (st, fr, s') \<longrightarrow> wf_bufs s' \<and> coherent s'))
   \<and> (\<forall>cs t. runOps cs (BufMgr_new n d) = Some t \<longrightarrow> wf_bufs t \<and> coherent t)"
proof (intro conjI impI allI)
  show "wf_bufs (BufMgr_new n d)" "coherent (BufMgr_new n d)"
    using BufMgr_new_inv by simp_all
next
  fix f p st fr s' assume "wf_bufs s \<and> coherent s" "readPage f p s = Some (st, fr, s')"
  then show "wf_bufs s'" "coherent s'" using readPage_inv_any by blast+
next
  fix f st r s' assume "wf_bufs s \<and> coherent s" "allocPage f s = Some (st, r, s')"
  then show "wf_bufs s'" "coherent s'" using allocPage_inv_any by blast+
next
  fix f p dty st s' assume "wf_bufs s \<and> coherent s" "unPinPage f p dty s = (st, s')"
  then show "wf_bufs s'" "coherent s'" using unPinPage_inv by blast+
next
  fix f p st s' assume "wf_bufs s \<and> coherent s" "disposePage f p s = (st, s')"
  then show "wf_bufs s'" "coherent s'" using disposePage_inv by blast+
next
  fix f st s' assume "wf_bufs s \<and> coherent s" "flushFile f s = (st, s')"
  then show "wf_bufs s'" "coherent s'" using flushFile_inv by blast+
next
  fix st fr s' assume "wf_bufs s \<and> coherent s" "allocBuf s = Some (st, fr, s')"
  then show "wf_bufs s'" "coherent s'" using allocBuf_inv_any by blast+
next
  fix cs t assume "runOps cs (BufMgr_new n d) = Some t"
  from runOps_inv [OF this] BufMgr_new_inv show "wf_bufs t" "coherent t" by blast+
qed

theorem coherent_after_OK_witness:
  "wf_bufs s_one \<and> coherent s_one
   \<and> (\<exists>fr s'. readPage 0 1 s_one = Some (OK, fr, s') \<and> coherent s')
   \<and> (\<exists>fr s'. readPage 0 0 s_one = Some (OK, fr, s') \<and> coherent s')
   \<and> (\<exists>fr s'. readPage 0 9 s_one = Some (BADPAGENO, fr, s') \<and> coherent s')
   \<and> (\<exists>r s'. allocPage 0 s_one = Some (OK, r, s') \<and> coherent s')
   \<and> (\<exists>s'. unPinPage 0 0 True s_one = (OK, s') \<and> coherent s')
   \<and> (\<exists>s'. unPinPage 0 1 True s_one = (HASHNOTFOUND, s') \<and> coherent s')
   \<and> (\<exists>s'. disposePage 0 0 s_one = (OK, s') \<and> coherent s')
   \<and> (\<exists>fr s'. allocBuf s_one = Some (OK, fr, s') \<and> coherent s')
   \<and> (\<exists>fr s'. allocBuf s_pin = Some (BUFFEREXCEEDED, fr, s') \<and> coherent s')
   \<and> wf_bufs s_unp \<and> coherent s_unp
   \<and> (\<exists>s'. flushFile 0 s_unp = (OK, s') \<and> coherent s')
   \<and> (\<exists>s'. flushFile 0 s_one = (PAGEPINNED, s') \<and> coherent s')
   \<and> (\<exists>t. runOps [CallReadPage 0 0, CallReadPage 0 9, CallUnPinPage 0 0 True,
                    CallReadPage 0 1, CallFlushFile 0, CallDisposePage 0 0, CallAllocPage 0]
             (BufMgr_new 2 d0) = Some t \<and> wf_bufs t \<and> coherent t)"
proof -
  note inv = s_one_inv
  note T = coherent_after_OK [of 2 d0 s_one, THEN conjunct2, THEN conjunct1, rule_format,
      OF s_one_inv]
  have "map_option fst (readPage 0 1 s_one) = Some OK" by code_simp
  then obtain fr1 s1 where r1: "readPage 0 1 s_one = Some (OK, fr1, s1)"
    by (cases "readPage 0 1 s_one") auto
  have "map_option fst (readPage 0 0 s_one) = Some OK" by code_simp
  then obtain fr2 s2 where r2: "readPage 0 0 s_one = Some (OK, fr2, s2)"
    by (cases "readPage 0 0 s_one") auto
  have "map_option fst (readPage 0 9 s_one) = Some BADPAGENO" by code_simp
  then obtain fr8 s8 where r8: "readPage 0 9 s_one = Some (BADPAGENO, fr8, s8)"
    by (cases "readPage 0 9 s_one") auto
  have "map_option fst (allocPage 0 s_one) = Some OK" by code_simp
  then obtain fr3 s3 where r3: "allocPage 0 s_one = Some (OK, fr3, s3)"
    by (cases "allocPage 0 s_one") auto
  have "fst (unPinPage 0 0 True s_one) = OK" by code_simp
  then obtain s4 where r4: "unPinPage 0 0 True s_one = (OK, s4)"
    by (cases "unPinPage 0 0 True s_one") auto
  have "fst (unPinPage 0 1 True s_one) = HASHNOTFOUND" by code_simp
  then obtain s9 where r9: "unPinPage 0 1 True s_one = (HASHNOTFOUND, s9)"
    by (cases "unPinPage 0 1 True s_one") auto
  have "fst (disposePage 0 0 s_one) = OK" by code_simp
  then obtain s5 where r5: "disposePage 0 0 s_one = (OK, s5)"
    by (cases "disposePage 0 0 s_one") auto
  have "map_option fst (allocBuf s_one) = Some OK" by code_simp
  then obtain fr6 s6 where r6: "allocBuf s_one = Some (OK, fr6, s6)"
    by (cases "allocBuf s_one") auto
  have "fst (flushFile 0 s_unp) = OK" by code_simp
  then obtain s7 where r7: "flushFile 0 s_unp = (OK, s7)"
    by (cases "flushFile 0 s_unp") auto
  have "fst (flushFile 0 s_one) = PAGEPINNED" by code_simp
  then obtain s10 where r10: "flushFile 0 s_one = (PAGEPINNED, s10)"
    by (cases "flushFile 0 s_one") auto
  have pin: "wf_bufs s_pin \<and> coherent s_pin"
    by (auto simp: wf_bufs_def coherent_def s_pin_def less_Suc_eq numeral_2_eq_2
        split: if_splits)
  have "map_option fst (allocBuf s_pin) = Some BUFFEREXCEEDED" by code_simp
  then obtain fr11 s11 where r11: "allocBuf s_pin = Some (BUFFEREXCEEDED, fr11, s11)"
    by (cases "allocBuf s_pin") auto
  have "map_option numBufs
          (runOps [CallReadPage 0 0, CallReadPage 0 9, CallUnPinPage 0 0 True,
                   CallReadPage 0 1, CallFlushFile 0, CallDisposePage 0 0, CallAllocPage 0]
             (BufMgr_new 2 d0)) = Some 2" by code_simp
  then obtain t where r12: "runOps [CallReadPage 0 0, CallReadPage 0 9, CallUnPinPage 0 0 True,
                   CallReadPage 0 1, CallFlushFile 0, CallDisposePage 0 0, CallAllocPage 0]
             (BufMgr_new 2 d0) = Some t"
    by (cases "runOps [CallReadPage 0 0, CallReadPage 0 9, CallUnPinPage 0 0 True,
                   CallReadPage 0 1, CallFlushFile 0, CallDisposePage 0 0, CallAllocPage 0]
             (BufMgr_new 2 d0)") auto
  note U = coherent_after_OK [of 2 d0 s_unp, THEN conjunct2, THEN conjunct1, rule_format,
      OF s_unp_inv]
  note P = coherent_after_OK [of 2 d0 s_pin, THEN conjunct2, THEN conjunct1, rule_format,
      OF pin]
  note R = coherent_after_OK [of 2 d0 s_one, THEN conjunct2, THEN conjunct2, rule_format,
      OF r12]
  from T [THEN conjunct1, rule_format, OF r1] have c1: "coherent s1" by simp
  from T [THEN conjunct1, rule_format, OF r2] have c2: "coherent s2" by simp
  from T [THEN conjunct2, THEN conjunct1, rule_format, OF r3] have c3: "coherent s3" by simp
  from T [THEN conjunct2, THEN conjunct2, THEN conjunct1, rule_format, OF r4] have c4: "coherent s4" by simp
  from T [THEN conjunct2, THEN conjunct2, THEN conjunct2, THEN conjunct1, rule_format, OF r5] have c5: "coherent s5" by simp
  from T [THEN conjunct2, THEN conjunct2, THEN conjunct2, THEN conjunct2, THEN conjunct2, rule_format, OF r6] have c6: "coherent s6" by simp
  from U [THEN conjunct2, THEN conjunct2, THEN conjunct2, THEN conjunct2, THEN conjunct1, rule_format, OF r7] have c7: "coherent s7" by simp
  from T [THEN conjunct1, rule_format, OF r8] have c8: "coherent s8" by simp
  from T [THEN conjunct2, THEN conjunct2, THEN conjunct1, rule_format, OF r9] have c9: "coherent s9" by simp
  from T [THEN conjunct2, THEN conjunct2, THEN conjunct2, THEN conjunct2, THEN conjunct1, rule_format, OF r10] have c10: "coherent s10" by simp
  from P [THEN conjunct2, THEN conjunct2, THEN conjunct2, THEN conjunct2, THEN conjunct2, rule_format, OF r11] have c11: "coherent s11" by simp
  from inv s_unp_inv r1 r2 r3 r4 r5 r6 r7 r8 r9 r10 r11 r12
    c1 c2 c3 c4 c5 c6 c7 c8 c9 c10 c11 R
  show ?thesis by blast
qed

section \<open>The contract of readPage\<close>

lemma s_one_pins: "pins_nonneg s_one"
  by (auto simp: pins_nonneg_def s_one_def less_Suc_eq numeral_2_eq_2)

text \<open>
  C3. \<open>readPage(file, pageNo, page)\<close> that returns \<open>OK\<close>, from a coherent pool with
  non-negative pin counts. On a hit the new state is the old one with the reference bit
  of the holding frame set and its pin count incremented: no disk read, nothing else
  changed. On a miss \<open>allocBuf\<close> returned the frame (and read nothing), the page is read
  from disk exactly once into the frame, (file, pageNo) is inserted in the index and the
  descriptor is (file, pageNo, pinCnt = 1, dirty = false, refbit = 1, valid). In both
  cases the frame returned holds the requested page and is pinned.
\<close>

theorem readPage_contract:
  assumes "wf_bufs s" "coherent s" "pins_nonneg s"
    and "readPage f p s = Some (OK, fr, s')"
  shows "\<exists>k. fr = Some k \<and> k < numBufs s'
     \<and> (case hashTable s (f, p) of
          Some k0 \<Rightarrow>
            k = k0 \<and> disk s' = disk s
            \<and> s' = s\<lparr>bufTable := (bufTable s)
                 [k := (bufTable s ! k)\<lparr>refbit := True, pinCnt := pinCnt (bufTable s ! k) + 1\<rparr>]\<rparr>
        | None \<Rightarrow>
            (\<exists>s1 content.
               allocBuf s = Some (OK, Some k, s1)
               \<and> reads (disk s1) = reads (disk s)
               \<and> reads (disk s') = reads (disk s) @ [RD f p]
               \<and> dpages (disk s1) (f, p) = Some content
               \<and> bufPool s' ! k = content
               \<and> hashTable s' = (hashTable s1)((f, p) \<mapsto> k)
               \<and> bufTable s' ! k = \<lparr>file = Some f, pageNo = p, frameNo = k, pinCnt = 1,
                                     dirty = False, valid = True, refbit = True\<rparr>))
     \<and> hashTable s' (f, p) = Some k
     \<and> valid (bufTable s' ! k) \<and> file (bufTable s' ! k) = Some f
     \<and> pageNo (bufTable s' ! k) = p \<and> 0 < pinCnt (bufTable s' ! k)"
proof -
  from readPage_OK_cases [OF assms(4)] obtain k where fr: "fr = Some k"
    and c: "readPage_hit f p s k s' \<or> readPage_miss f p s k s'" by blast
  from assms(1) have len: "length (bufTable s) = numBufs s" "length (bufPool s) = numBufs s"
    by (simp_all add: wf_bufs_def)
  from c show ?thesis
  proof
    assume "readPage_hit f p s k s'"
    then have hk: "hashTable s (f, p) = Some k"
      and s': "s' = s\<lparr>bufTable := (bufTable s)
               [k := (bufTable s ! k)\<lparr>refbit := True, pinCnt := pinCnt (bufTable s ! k) + 1\<rparr>]\<rparr>"
      by (simp_all add: readPage_hit_def)
    note d = coherentD2 [OF assms(2) hk]
    from assms(3) d(1) have "0 \<le> pinCnt (bufTable s ! k)" by (simp add: pins_nonneg_def)
    with fr hk d len show ?thesis by (simp add: s')
  next
    assume "readPage_miss f p s k s'"
    then obtain s1 content where hn: "hashTable s (f, p) = None"
      and a: "allocBuf s = Some (OK, Some k, s1)"
      and dc: "dpages (disk s1) (f, p) = Some content"
      and s': "numBufs s' = numBufs s1"
        "disk s' = (disk s1)\<lparr>ioLog := ioLog (disk s1) @ [RD f p]\<rparr>"
        "bufPool s' = (bufPool s1)[k := content]"
        "hashTable s' = (hashTable s1)((f, p) \<mapsto> k)"
        "bufTable s' = (bufTable s1)
                 [k := \<lparr>file = Some f, pageNo = p, frameNo = k, pinCnt = 1,
                        dirty = False, valid = True, refbit = True\<rparr>]"
      by (auto simp: readPage_miss_def)
    from allocBuf_post_holds [OF a assms(1)] have post: "allocBuf_post s (OK, Some k, s1)" .
    then have klt: "k < numBufs s" and n1: "numBufs s1 = numBufs s"
      and l1: "length (bufTable s1) = length (bufTable s)" "bufPool s1 = bufPool s"
      and rd: "reads (disk s1) = reads (disk s)"
      by (auto elim!: allocBuf_post_OK)
    have "reads (disk s') = reads (disk s) @ [RD f p]"
      using rd by (simp add: s' reads_def)
    with fr hn a dc rd klt n1 l1 len show ?thesis by (simp add: s')
  qed
qed

theorem readPage_contract_witness:
  "wf_bufs s_one \<and> coherent s_one \<and> pins_nonneg s_one
   \<and> (\<exists>fr s'. readPage 0 0 s_one = Some (OK, fr, s') \<and> fr = Some 0
         \<and> disk s' = disk s_one \<and> pinCnt (bufTable s' ! 0) = 2)
   \<and> (\<exists>fr s' k. readPage 0 1 s_one = Some (OK, fr, s') \<and> fr = Some k
         \<and> reads (disk s') = reads (disk s_one) @ [RD 0 1]
         \<and> hashTable s' (0, 1) = Some k \<and> pinCnt (bufTable s' ! k) = 1)"
proof -
  note inv = s_one_inv [THEN conjunct1] s_one_inv [THEN conjunct2] s_one_pins
  have "map_option fst (readPage 0 0 s_one) = Some OK" by code_simp
  then obtain fr1 s1 where r1: "readPage 0 0 s_one = Some (OK, fr1, s1)"
    by (cases "readPage 0 0 s_one") auto
  have "map_option fst (readPage 0 1 s_one) = Some OK" by code_simp
  then obtain fr2 s2 where r2: "readPage 0 1 s_one = Some (OK, fr2, s2)"
    by (cases "readPage 0 1 s_one") auto
  have h0: "hashTable s_one (0, 0) = Some 0" and h1: "hashTable s_one (0, 1) = None"
    and p0: "pinCnt (bufTable s_one ! 0) = 1"
    by (simp_all add: s_one_def)
  from readPage_contract [OF inv r1] h0 p0
  have a: "fr1 = Some 0 \<and> disk s1 = disk s_one \<and> pinCnt (bufTable s1 ! 0) = 2"
    by (auto simp: s_one_def)
  from readPage_contract [OF inv r2] h1
  obtain k where "fr2 = Some k \<and> reads (disk s2) = reads (disk s_one) @ [RD 0 1]
         \<and> hashTable s2 (0, 1) = Some k \<and> pinCnt (bufTable s2 ! k) = 1"
    by auto
  with inv r1 r2 a show ?thesis by blast
qed

section \<open>flushFile\<close>

lemma flush_step_Some:
  assumes "flush_verdict f s i = Some st"
  shows "fst (flushFile_loop f (i # rest) s) = st"
  using assms
  by (auto simp: flush_verdict_def Let_def file_writePage_def split: if_splits)

lemma flush_verdict_not_OK: "flush_verdict f s i \<noteq> Some OK"
  by (auto simp: flush_verdict_def Let_def)

lemma flush_step_None:
  assumes "flush_verdict f s i = None"
  shows "flushFile_loop f (i # rest) s = flushFile_loop f rest (flushFrame f i s)"
proof (cases "valid (bufTable s ! i) \<and> file (bufTable s ! i) = Some f")
  case False
  with assms show ?thesis
    by (auto simp: flush_verdict_def flushFrame_def Let_def split: if_splits)
next
  case True
  define b where "b = bufTable s ! i"
  from True assms have np: "\<not> pinCnt b > 0"
    and al: "dirty b \<longrightarrow> dpages (disk s) (f, pageNo b) \<noteq> None"
    by (auto simp: flush_verdict_def Let_def b_def split: if_splits)
  obtain rr ht where r: "remove_h (hashTable s) (Some f) (pageNo b) = (rr, ht)" by fastforce
  show ?thesis
  proof (cases "dirty b")
    case False
    with True np r show ?thesis
      by (simp add: flushFrame_def Let_def b_def [symmetric])
  next
    case True
    with al obtain old where "dpages (disk s) (f, pageNo b) = Some old" by auto
    then have w: "file_writePage f (pageNo b) (bufPool s ! i) (disk s)
        = (OK, (disk s)\<lparr>ioLog := ioLog (disk s) @ [WR f (pageNo b)],
                        dpages := (dpages (disk s))((f, pageNo b) \<mapsto> bufPool s ! i)\<rparr>)"
      by (simp add: file_writePage_def Let_def)
    from \<open>valid (bufTable s ! i) \<and> file (bufTable s ! i) = Some f\<close> True np r w
    show ?thesis
      by (simp add: flushFrame_def Let_def b_def [symmetric])
  qed
qed

lemma flushFrame_fields:
  "numBufs (flushFrame f i s) = numBufs s"
  "bufPool (flushFrame f i s) = bufPool s"
  "length (bufTable (flushFrame f i s)) = length (bufTable s)"
  "k \<noteq> i \<Longrightarrow> bufTable (flushFrame f i s) ! k = bufTable s ! k"
  by (simp_all add: flushFrame_def Let_def)

lemma flushFrame_dpages:
  "dpages (disk (flushFrame f i s)) key =
     (if valid (bufTable s ! i) \<and> file (bufTable s ! i) = Some f \<and> dirty (bufTable s ! i)
         \<and> dpages (disk s) (f, pageNo (bufTable s ! i)) \<noteq> None
         \<and> key = (f, pageNo (bufTable s ! i))
      then Some (bufPool s ! i) else dpages (disk s) key)"
  by (auto simp: flushFrame_def Let_def file_writePage_def split: option.splits)

lemma flush_verdict_flushFrame:
  assumes "k \<noteq> i"
  shows "flush_verdict f (flushFrame f i s) k = flush_verdict f s k"
  using assms
  by (auto simp: flush_verdict_def Let_def flushFrame_fields flushFrame_dpages)

lemma flushFile_loop_all_None:
  "distinct js \<Longrightarrow> \<forall>j\<in>set js. flush_verdict f s j = None \<Longrightarrow>
   fst (flushFile_loop f js s) = OK"
proof (induction js arbitrary: s)
  case Nil
  then show ?case by simp
next
  case (Cons i rest)
  from Cons.prems have n: "flush_verdict f s i = None" and d: "distinct rest"
    and ni: "i \<notin> set rest" and r0: "\<forall>j\<in>set rest. flush_verdict f s j = None"
    by auto
  have r: "\<forall>j\<in>set rest. flush_verdict f (flushFrame f i s) j = None"
  proof
    fix j assume j: "j \<in> set rest"
    with ni have "j \<noteq> i" by auto
    from flush_verdict_flushFrame [OF this] r0 j
    show "flush_verdict f (flushFrame f i s) j = None" by simp
  qed
  from Cons.IH [OF d r] flush_step_None [OF n] show ?case by simp
qed

lemma flushFile_loop_first_Some:
  "distinct (pre @ i # post) \<Longrightarrow> \<forall>j\<in>set pre. flush_verdict f s j = None \<Longrightarrow>
   flush_verdict f s i = Some st \<Longrightarrow> fst (flushFile_loop f (pre @ i # post) s) = st"
proof (induction pre arbitrary: s)
  case Nil
  then show ?case using flush_step_Some [of f s i st post] by simp
next
  case (Cons j rest)
  from Cons.prems have n: "flush_verdict f s j = None"
    and d: "distinct (rest @ i # post)" and ne: "i \<noteq> j"
    and ni: "j \<notin> set rest" and r0: "\<forall>k\<in>set rest. flush_verdict f s k = None"
    by auto
  have r: "\<forall>k\<in>set rest. flush_verdict f (flushFrame f j s) k = None"
  proof
    fix k assume k: "k \<in> set rest"
    with ni have "k \<noteq> j" by auto
    from flush_verdict_flushFrame [OF this] r0 k
    show "flush_verdict f (flushFrame f j s) k = None" by simp
  qed
  from Cons.prems ne have s: "flush_verdict f (flushFrame f j s) i = Some st"
    by (simp add: flush_verdict_flushFrame)
  from Cons.IH [OF d r s] flush_step_None [OF n] show ?case by simp
qed

lemma flushFile_stops:
  assumes "i < numBufs s" "flush_verdict f s i = Some st"
    "\<forall>j<i. flush_verdict f s j = None"
  shows "fst (flushFile f s) = st"
proof -
  from assms(1) have "[0..<numBufs s] = [0..<i] @ i # [Suc i..<numBufs s]"
    by (metis less_imp_le_nat upt_add_eq_append upt_conv_Cons le_add_diff_inverse plus_nat.add_0 zero_le)
  moreover have "distinct ([0..<i] @ i # [Suc i..<numBufs s])"
    using calculation distinct_upt by metis
  ultimately show ?thesis
    using flushFile_loop_first_Some [of "[0..<i]" i "[Suc i..<numBufs s]" f s st] assms
    by (simp add: flushFile_def)
qed

lemma flushFile_passes:
  assumes "\<forall>i<numBufs s. flush_verdict f s i = None"
  shows "fst (flushFile f s) = OK"
  using flushFile_loop_all_None [of "[0..<numBufs s]" f s] assms
  by (simp add: flushFile_def)

lemma flushFrame_inv:
  assumes wf: "wf_bufs s" and co: "coherent s" and i: "i < numBufs s"
  shows "wf_bufs (flushFrame f i s)" "coherent (flushFrame f i s)"
proof -
  define b where "b = bufTable s ! i"
  have "wf_bufs (flushFrame f i s) \<and> coherent (flushFrame f i s)"
  proof (cases "valid b \<and> file b = Some f")
    case False
    then have "flushFrame f i s = s" by (auto simp: flushFrame_def Let_def b_def)
    with wf co show ?thesis by simp
  next
    case True
    from True coherentD1 [OF co wf i] have hi: "hashTable s (f, pageNo b) = Some i"
      by (auto simp: b_def)
    then have rm: "remove_h (hashTable s) (Some f) (pageNo b)
        = (OK, (hashTable s)((f, pageNo b) := None))"
      by (simp add: remove_h_def)
    define b2 where "b2 = (if dirty b then b\<lparr>dirty := False\<rparr> else b)
         \<lparr>file := None, pageNo := - 1, valid := False\<rparr>"
    have wf2: "wf_bufs (flushFrame f i s)"
      by (rule wf_bufs_upd [OF wf, where fr = i and b' = b2])
         (use wf i True in \<open>auto simp: flushFrame_def Let_def b2_def b_def wf_bufs_def\<close>)
    have co2: "coherent (flushFrame f i s)"
      by (rule coherent_evict [OF co wf i, where f = f and p = "pageNo b" and b' = b2])
         (use True rm in \<open>auto simp: flushFrame_def Let_def b2_def b_def\<close>)
    from wf2 co2 show ?thesis by simp
  qed
  then show "wf_bufs (flushFrame f i s)" "coherent (flushFrame f i s)" by simp_all
qed

lemma flushFrame_own:
  assumes "i < length (bufTable s)"
  shows "\<not> (valid (bufTable (flushFrame f i s) ! i)
            \<and> file (bufTable (flushFrame f i s) ! i) = Some f)"
  using assms by (auto simp: flushFrame_def Let_def)

text \<open>What the loop of \<open>flushFile\<close> has done when it returns \<open>OK\<close>.\<close>

lemma flushFile_loop_OK:
  "flushFile_loop f js s = (OK, s') \<Longrightarrow> distinct js \<Longrightarrow> wf_bufs s \<Longrightarrow> coherent s \<Longrightarrow>
   \<forall>j\<in>set js. j < numBufs s \<Longrightarrow>
   (\<forall>j\<in>set js. \<not> (valid (bufTable s' ! j) \<and> file (bufTable s' ! j) = Some f))
   \<and> (\<forall>k. k \<notin> set js \<longrightarrow> bufTable s' ! k = bufTable s ! k)
   \<and> bufPool s' = bufPool s \<and> numBufs s' = numBufs s
   \<and> (\<forall>j\<in>set js. valid (bufTable s ! j) \<and> file (bufTable s ! j) = Some f
          \<and> dirty (bufTable s ! j) \<longrightarrow>
          dpages (disk s') (f, pageNo (bufTable s ! j)) = Some (bufPool s ! j))
   \<and> (\<forall>key. dpages (disk s') key \<noteq> dpages (disk s) key \<longrightarrow>
          (\<exists>j\<in>set js. valid (bufTable s ! j) \<and> file (bufTable s ! j) = Some f
               \<and> key = (f, pageNo (bufTable s ! j))))"
proof (induction js arbitrary: s)
  case Nil
  then show ?case by simp
next
  case (Cons i rest)
  note wf = Cons.prems(3) and co = Cons.prems(4)
  from Cons.prems have ilt: "i < numBufs s" and d: "distinct rest" and ni: "i \<notin> set rest"
    and rlt: "\<forall>j\<in>set rest. j < numBufs s" by auto
  from wf ilt have ilen: "i < length (bufTable s)" by (simp add: wf_bufs_def)
  have n: "flush_verdict f s i = None"
  proof (cases "flush_verdict f s i")
    case (Some st)
    from flush_step_Some [OF this, of rest] Cons.prems(1) have "st = OK" by simp
    with Some flush_verdict_not_OK show ?thesis by blast
  qed simp
  define s2 where "s2 = flushFrame f i s"
  from flush_step_None [OF n, of rest] Cons.prems(1)
  have run: "flushFile_loop f rest s2 = (OK, s')" by (simp add: s2_def)
  note inv2 = flushFrame_inv [OF wf co ilt, of f, folded s2_def]
  note fld = flushFrame_fields [where f = f and i = i and s = s, folded s2_def]
  from rlt fld have rlt2: "\<forall>j\<in>set rest. j < numBufs s2" by simp
  from Cons.IH [OF run d inv2 rlt2]
  have ih1: "\<And>j. j \<in> set rest \<Longrightarrow> \<not> (valid (bufTable s' ! j) \<and> file (bufTable s' ! j) = Some f)"
    and ih2: "\<And>k. k \<notin> set rest \<Longrightarrow> bufTable s' ! k = bufTable s2 ! k"
    and ih3: "bufPool s' = bufPool s2" "numBufs s' = numBufs s2"
    and ih4: "\<And>j. j \<in> set rest \<Longrightarrow> valid (bufTable s2 ! j) \<Longrightarrow> file (bufTable s2 ! j) = Some f
          \<Longrightarrow> dirty (bufTable s2 ! j) \<Longrightarrow>
          dpages (disk s') (f, pageNo (bufTable s2 ! j)) = Some (bufPool s2 ! j)"
    and ih5: "\<And>key. dpages (disk s') key \<noteq> dpages (disk s2) key \<Longrightarrow>
          (\<exists>j\<in>set rest. valid (bufTable s2 ! j) \<and> file (bufTable s2 ! j) = Some f
               \<and> key = (f, pageNo (bufTable s2 ! j)))"
    by blast+
  have same: "\<And>j. j \<in> set rest \<Longrightarrow> bufTable s2 ! j = bufTable s ! j"
    using ni fld(4) by (metis s2_def)
  have dp2: "\<And>key. dpages (disk s2) key =
     (if valid (bufTable s ! i) \<and> file (bufTable s ! i) = Some f \<and> dirty (bufTable s ! i)
         \<and> dpages (disk s) (f, pageNo (bufTable s ! i)) \<noteq> None
         \<and> key = (f, pageNo (bufTable s ! i))
      then Some (bufPool s ! i) else dpages (disk s) key)"
    by (simp add: s2_def flushFrame_dpages)
  have c1: "\<forall>j\<in>set (i # rest). \<not> (valid (bufTable s' ! j) \<and> file (bufTable s' ! j) = Some f)"
  proof
    fix j assume "j \<in> set (i # rest)"
    then consider "j = i" | "j \<in> set rest" by auto
    then show "\<not> (valid (bufTable s' ! j) \<and> file (bufTable s' ! j) = Some f)"
    proof cases
      case 1
      with ih2 [OF ni] flushFrame_own [OF ilen, of f] show ?thesis by (simp add: s2_def)
    next
      case 2
      then show ?thesis by (rule ih1)
    qed
  qed
  have c2: "\<forall>k. k \<notin> set (i # rest) \<longrightarrow> bufTable s' ! k = bufTable s ! k"
    using ih2 fld(4) by (auto simp: s2_def)
  have c3: "bufPool s' = bufPool s \<and> numBufs s' = numBufs s"
    using ih3 fld by simp
  have c5: "\<forall>key. dpages (disk s') key \<noteq> dpages (disk s) key \<longrightarrow>
          (\<exists>j\<in>set (i # rest). valid (bufTable s ! j) \<and> file (bufTable s ! j) = Some f
               \<and> key = (f, pageNo (bufTable s ! j)))"
  proof (intro allI impI)
    fix key assume ch: "dpages (disk s') key \<noteq> dpages (disk s) key"
    show "\<exists>j\<in>set (i # rest). valid (bufTable s ! j) \<and> file (bufTable s ! j) = Some f
               \<and> key = (f, pageNo (bufTable s ! j))"
    proof (cases "dpages (disk s') key = dpages (disk s2) key")
      case True
      with ch have "dpages (disk s2) key \<noteq> dpages (disk s) key" by simp
      with dp2 [of key] have "valid (bufTable s ! i) \<and> file (bufTable s ! i) = Some f
          \<and> key = (f, pageNo (bufTable s ! i))" by (auto split: if_splits)
      then show ?thesis by auto
    next
      case False
      from ih5 [OF False] same show ?thesis by auto
    qed
  qed
  have c4: "\<forall>j\<in>set (i # rest). valid (bufTable s ! j) \<and> file (bufTable s ! j) = Some f
          \<and> dirty (bufTable s ! j) \<longrightarrow>
          dpages (disk s') (f, pageNo (bufTable s ! j)) = Some (bufPool s ! j)"
  proof (intro ballI impI)
    fix j assume j: "j \<in> set (i # rest)"
      and v: "valid (bufTable s ! j) \<and> file (bufTable s ! j) = Some f \<and> dirty (bufTable s ! j)"
    from j consider "j = i" | "j \<in> set rest" by auto
    then show "dpages (disk s') (f, pageNo (bufTable s ! j)) = Some (bufPool s ! j)"
    proof cases
      case 2
      with ih4 [OF 2] same [OF 2] v fld(2) show ?thesis by (simp add: s2_def)
    next
      case 1
      from n v 1 have al: "dpages (disk s) (f, pageNo (bufTable s ! i)) \<noteq> None"
        by (auto simp: flush_verdict_def Let_def split: if_splits)
      with dp2 [of "(f, pageNo (bufTable s ! i))"] v 1
      have w: "dpages (disk s2) (f, pageNo (bufTable s ! i)) = Some (bufPool s ! i)" by simp
      have "dpages (disk s') (f, pageNo (bufTable s ! i))
          = dpages (disk s2) (f, pageNo (bufTable s ! i))"
      proof (rule ccontr)
        assume "dpages (disk s') (f, pageNo (bufTable s ! i))
          \<noteq> dpages (disk s2) (f, pageNo (bufTable s ! i))"
        from ih5 [OF this] obtain k where k: "k \<in> set rest" "valid (bufTable s2 ! k)"
          "file (bufTable s2 ! k) = Some f" "pageNo (bufTable s ! i) = pageNo (bufTable s2 ! k)"
          by auto
        with same [OF k(1)] have k': "valid (bufTable s ! k)" "file (bufTable s ! k) = Some f"
          "pageNo (bufTable s ! k) = pageNo (bufTable s ! i)" by simp_all
        from rlt k(1) have klt: "k < numBufs s" by simp
        from coherentD1 [OF co wf klt k'(1)] k'
        have "hashTable s (f, pageNo (bufTable s ! i)) = Some k" by simp
        moreover from coherentD1 [OF co wf ilt] v 1
        have "hashTable s (f, pageNo (bufTable s ! i)) = Some i" by simp
        ultimately have "k = i" by simp
        with k(1) ni show False by simp
      qed
      with w 1 show ?thesis by simp
    qed
  qed
  from c1 c2 c3 c4 c5 show ?case by blast
qed

text \<open>The state in which the loop of \<open>flushFile\<close> stops.\<close>

lemma flush_step_stop:
  assumes "flush_verdict f s i = Some st"
  shows "flushFile_loop f (i # rest) s = (st, flush_stop f i s)"
  using assms
  by (auto simp: flush_verdict_def flush_stop_def Let_def file_writePage_def split: if_splits)

lemma flush_verdict_fold:
  "i \<notin> set js \<Longrightarrow> flush_verdict f (fold (flushFrame f) js s) i = flush_verdict f s i"
proof (induction js arbitrary: s)
  case Nil
  then show ?case by simp
next
  case (Cons j js)
  then have "i \<noteq> j" "i \<notin> set js" by auto
  with Cons.IH [of "flushFrame f j s"] flush_verdict_flushFrame [of i j f s]
  show ?case by simp
qed

lemma flushFile_loop_fold:
  "distinct js \<Longrightarrow> \<forall>j\<in>set js. flush_verdict f s j = None \<Longrightarrow>
   flushFile_loop f (js @ rest) s = flushFile_loop f rest (fold (flushFrame f) js s)"
proof (induction js arbitrary: s)
  case Nil
  then show ?case by simp
next
  case (Cons i js)
  from Cons.prems have n: "flush_verdict f s i = None" and d: "distinct js"
    and ni: "i \<notin> set js" and r0: "\<forall>j\<in>set js. flush_verdict f s j = None"
    by auto
  have r: "\<forall>j\<in>set js. flush_verdict f (flushFrame f i s) j = None"
  proof
    fix j assume j: "j \<in> set js"
    with ni have "j \<noteq> i" by auto
    from flush_verdict_flushFrame [OF this] r0 j
    show "flush_verdict f (flushFrame f i s) j = None" by simp
  qed
  from Cons.IH [OF d r] flush_step_None [OF n, of "js @ rest"] show ?case by simp
qed

lemma flush_stop_fields:
  "numBufs (flush_stop f i s) = numBufs s"
  "bufPool (flush_stop f i s) = bufPool s"
  "bufTable (flush_stop f i s) = bufTable s"
  "hashTable (flush_stop f i s) = hashTable s"
  "flush_verdict f s i = Some st \<Longrightarrow> dpages (disk (flush_stop f i s)) = dpages (disk s)"
  by (auto simp: flush_stop_def flush_verdict_def Let_def file_writePage_def split: if_splits)

lemma flushFile_stop_state:
  assumes i: "i < numBufs s" and v: "flush_verdict f s i = Some st"
    and pre: "\<forall>j<i. flush_verdict f s j = None"
  shows "flushFile f s = (st, flush_stop f i (fold (flushFrame f) [0..<i] s))"
    and "flushFile_loop f [0..<i] s = (OK, fold (flushFrame f) [0..<i] s)"
    and "flush_verdict f (fold (flushFrame f) [0..<i] s) i = Some st"
proof -
  from i have up: "[0..<numBufs s] = [0..<i] @ i # [Suc i..<numBufs s]"
    by (metis less_imp_le_nat upt_add_eq_append upt_conv_Cons le_add_diff_inverse plus_nat.add_0 zero_le)
  from pre have n: "\<forall>j\<in>set [0..<i]. flush_verdict f s j = None" by simp
  show vt: "flush_verdict f (fold (flushFrame f) [0..<i] s) i = Some st"
    using flush_verdict_fold [of i "[0..<i]" f s] v by simp
  from flushFile_loop_fold [OF distinct_upt n, of "i # [Suc i..<numBufs s]"]
    flush_step_stop [OF vt]
  show "flushFile f s = (st, flush_stop f i (fold (flushFrame f) [0..<i] s))"
    by (simp add: flushFile_def up [symmetric])
  from flushFile_loop_fold [OF distinct_upt n, of "[]"]
  show "flushFile_loop f [0..<i] s = (OK, fold (flushFrame f) [0..<i] s)" by simp
qed

lemma flushFile_stop_flushed:
  assumes wf: "wf_bufs s" and co: "coherent s"
    and i: "i < numBufs s" and v: "flush_verdict f s i = Some st"
    and pre: "\<forall>j<i. flush_verdict f s j = None"
    and s': "s' = snd (flushFile f s)"
  shows "\<forall>j<i. \<not> (valid (bufTable s' ! j) \<and> file (bufTable s' ! j) = Some f)"
    and "\<forall>j<i. valid (bufTable s ! j) \<and> file (bufTable s ! j) = Some f \<longrightarrow>
           hashTable s' (f, pageNo (bufTable s ! j)) = None
           \<and> (dirty (bufTable s ! j) \<longrightarrow>
                dpages (disk s') (f, pageNo (bufTable s ! j)) = Some (bufPool s ! j))"
    and "\<forall>j. i \<le> j \<longrightarrow> bufTable s' ! j = bufTable s ! j"
    and "bufPool s' = bufPool s"
proof -
  define t where "t = fold (flushFrame f) [0..<i] s"
  note st = flushFile_stop_state [OF i v pre, folded t_def]
  from st(1) s' have s't: "s' = flush_stop f i t" by simp
  have lt: "\<forall>j\<in>set [0..<i]. j < numBufs s" using i by simp
  note P = flushFile_loop_OK [OF st(2) distinct_upt wf co lt]
  note fs = flush_stop_fields [where f = f and i = i and s = t]
  from P have nv: "\<forall>j<i. \<not> (valid (bufTable t ! j) \<and> file (bufTable t ! j) = Some f)"
    and keep: "\<forall>k. i \<le> k \<longrightarrow> bufTable t ! k = bufTable s ! k"
    and pool: "bufPool t = bufPool s" and nb: "numBufs t = numBufs s"
    and wr: "\<forall>j<i. valid (bufTable s ! j) \<and> file (bufTable s ! j) = Some f
          \<and> dirty (bufTable s ! j) \<longrightarrow>
          dpages (disk t) (f, pageNo (bufTable s ! j)) = Some (bufPool s ! j)"
    by simp_all
  show a: "\<forall>j<i. \<not> (valid (bufTable s' ! j) \<and> file (bufTable s' ! j) = Some f)"
    using nv by (simp add: s't fs)
  show c: "\<forall>j. i \<le> j \<longrightarrow> bufTable s' ! j = bufTable s ! j"
    using keep by (simp add: s't fs)
  show "bufPool s' = bufPool s" using pool by (simp add: s't fs)
  have fl: "flushFile f s = (st, s')" using st(1) s't by simp
  from flushFile_inv [OF fl wf co] have co': "coherent s'" by simp
  have nb': "numBufs s' = numBufs s" using nb by (simp add: s't fs)
  show "\<forall>j<i. valid (bufTable s ! j) \<and> file (bufTable s ! j) = Some f \<longrightarrow>
           hashTable s' (f, pageNo (bufTable s ! j)) = None
           \<and> (dirty (bufTable s ! j) \<longrightarrow>
                dpages (disk s') (f, pageNo (bufTable s ! j)) = Some (bufPool s ! j))"
  proof (intro allI impI)
    fix j assume j: "j < i"
      and vj: "valid (bufTable s ! j) \<and> file (bufTable s ! j) = Some f"
    from j i have jn: "j < numBufs s" by simp
    from coherentD1 [OF co wf jn] vj
    have hj: "hashTable s (f, pageNo (bufTable s ! j)) = Some j" by auto
    have h: "hashTable s' (f, pageNo (bufTable s ! j)) = None"
    proof (cases "hashTable s' (f, pageNo (bufTable s ! j))")
      case (Some k)
      note d = coherentD2 [OF co' Some]
      show ?thesis
      proof (cases "k < i")
        case True
        with a d show ?thesis by auto
      next
        case False
        with c have e: "bufTable s' ! k = bufTable s ! k" by simp
        from d nb' have kn: "k < numBufs s" by simp
        from coherentD1 [OF co wf kn] d e hj have "k = j" by auto
        with False j show ?thesis by simp
      qed
    qed simp
    have w: "dirty (bufTable s ! j) \<longrightarrow>
                dpages (disk s') (f, pageNo (bufTable s ! j)) = Some (bufPool s ! j)"
      using wr j vj fs(5) [OF st(3)] by (simp add: s't)
    from h w
    show "hashTable s' (f, pageNo (bufTable s ! j)) = None
           \<and> (dirty (bufTable s ! j) \<longrightarrow>
                dpages (disk s') (f, pageNo (bufTable s ! j)) = Some (bufPool s ! j))"
      by simp
  qed
qed

lemma s_fl_inv: "wf_bufs s_fl \<and> coherent s_fl"
  by (auto simp: wf_bufs_def coherent_def s_fl_def less_Suc_eq numeral_2_eq_2 split: if_splits)

lemma s_part_inv: "wf_bufs s_part \<and> coherent s_part"
  by (auto simp: wf_bufs_def coherent_def s_part_def less_Suc_eq numeral_2_eq_2 split: if_splits)

text \<open>
  C4, as stated, fails: the claim lets any valid pinned frame of the file decide for
  \<open>PAGEPINNED\<close>. The loop visits the frames in index order and stops at the first frame
  that gives a reason. In the coherent pool \<open>s_fl\<close>, frame 1 is a valid pinned frame of
  file 0, but frame 0 is visited first: it is dirty and not pinned, the write of its page
  fails, and \<open>flushFile(0)\<close> returns the write error.
\<close>

theorem flushFile_pinned_counterexample:
  "valid (bufTable s_fl ! 1) \<and> file (bufTable s_fl ! 1) = Some 0
   \<and> 0 < pinCnt (bufTable s_fl ! 1)
   \<and> fst (flushFile 0 s_fl) = BADPAGENO \<and> fst (flushFile 0 s_fl) \<noteq> PAGEPINNED"
  by code_simp

text \<open>
  C4, amended. From a coherent pool, \<open>flushFile(file)\<close> visits the frames in index
  order and the first frame with a verdict decides: \<open>PAGEPINNED\<close> at a valid pinned
  frame of the file, \<open>BADBUFFER\<close> at an invalid frame whose file field is the file, the
  write error at a dirty frame of the file whose write fails. When the loop stops at
  frame \<open>i\<close>, the frames visited before it have already been flushed: the state returned
  is the state after \<open>flushFrame\<close> on the frames \<open>0, ..., i - 1\<close> in this order (with the
  failed write attempted on the file store, if that is the reason), so none of them is a
  valid frame of the file any more, the index has lost their pages, the pages of those
  that were dirty are on disk with the content of the frames, and the descriptors from
  frame \<open>i\<close> on are untouched. Without a frame that stops the loop it returns \<open>OK\<close>. After
  an \<open>OK\<close> return no valid frame belongs to the file, the index has no entry of the file,
  and the page of every frame of the file that was dirty is on disk equal to the content
  the frame had at the call.
\<close>

theorem flushFile_contract:
  assumes "wf_bufs s" "coherent s"
  shows "(\<forall>i st. i < numBufs s \<and> flush_verdict f s i = Some st
              \<and> (\<forall>j<i. flush_verdict f s j = None) \<longrightarrow>
            fst (flushFile f s) = st
            \<and> snd (flushFile f s) = flush_stop f i (fold (flushFrame f) [0..<i] s)
            \<and> (\<forall>j<i. \<not> (valid (bufTable (snd (flushFile f s)) ! j)
                         \<and> file (bufTable (snd (flushFile f s)) ! j) = Some f))
            \<and> (\<forall>j<i. valid (bufTable s ! j) \<and> file (bufTable s ! j) = Some f \<longrightarrow>
                   hashTable (snd (flushFile f s)) (f, pageNo (bufTable s ! j)) = None
                   \<and> (dirty (bufTable s ! j) \<longrightarrow>
                        dpages (disk (snd (flushFile f s))) (f, pageNo (bufTable s ! j))
                          = Some (bufPool s ! j)))
            \<and> (\<forall>j. i \<le> j \<longrightarrow> bufTable (snd (flushFile f s)) ! j = bufTable s ! j)
            \<and> bufPool (snd (flushFile f s)) = bufPool s)
   \<and> ((\<forall>i<numBufs s. flush_verdict f s i = None) \<longrightarrow> fst (flushFile f s) = OK)
   \<and> (\<forall>s'. flushFile f s = (OK, s') \<longrightarrow>
          (\<forall>i<numBufs s. \<not> (valid (bufTable s' ! i) \<and> file (bufTable s' ! i) = Some f))
          \<and> (\<forall>p. hashTable s' (f, p) = None)
          \<and> (\<forall>i<numBufs s. valid (bufTable s ! i) \<and> file (bufTable s ! i) = Some f
                 \<and> dirty (bufTable s ! i) \<longrightarrow>
                 dpages (disk s') (f, pageNo (bufTable s ! i)) = Some (bufPool s ! i)))"
proof -
  have A: "\<forall>i st. i < numBufs s \<and> flush_verdict f s i = Some st
              \<and> (\<forall>j<i. flush_verdict f s j = None) \<longrightarrow>
            fst (flushFile f s) = st
            \<and> snd (flushFile f s) = flush_stop f i (fold (flushFrame f) [0..<i] s)
            \<and> (\<forall>j<i. \<not> (valid (bufTable (snd (flushFile f s)) ! j)
                         \<and> file (bufTable (snd (flushFile f s)) ! j) = Some f))
            \<and> (\<forall>j<i. valid (bufTable s ! j) \<and> file (bufTable s ! j) = Some f \<longrightarrow>
                   hashTable (snd (flushFile f s)) (f, pageNo (bufTable s ! j)) = None
                   \<and> (dirty (bufTable s ! j) \<longrightarrow>
                        dpages (disk (snd (flushFile f s))) (f, pageNo (bufTable s ! j))
                          = Some (bufPool s ! j)))
            \<and> (\<forall>j. i \<le> j \<longrightarrow> bufTable (snd (flushFile f s)) ! j = bufTable s ! j)
            \<and> bufPool (snd (flushFile f s)) = bufPool s"
  proof (intro allI impI)
    fix i st
    assume h: "i < numBufs s \<and> flush_verdict f s i = Some st
              \<and> (\<forall>j<i. flush_verdict f s j = None)"
    then have i: "i < numBufs s" and v: "flush_verdict f s i = Some st"
      and pre: "\<forall>j<i. flush_verdict f s j = None" by simp_all
    note S = flushFile_stop_state [OF i v pre]
    note F = flushFile_stop_flushed [OF assms i v pre refl]
    from S(1) have a1: "fst (flushFile f s) = st"
      and a2: "snd (flushFile f s) = flush_stop f i (fold (flushFrame f) [0..<i] s)"
      by simp_all
    from a1 a2 F(1) F(2) F(3) F(4)
    show "fst (flushFile f s) = st
            \<and> snd (flushFile f s) = flush_stop f i (fold (flushFrame f) [0..<i] s)
            \<and> (\<forall>j<i. \<not> (valid (bufTable (snd (flushFile f s)) ! j)
                         \<and> file (bufTable (snd (flushFile f s)) ! j) = Some f))
            \<and> (\<forall>j<i. valid (bufTable s ! j) \<and> file (bufTable s ! j) = Some f \<longrightarrow>
                   hashTable (snd (flushFile f s)) (f, pageNo (bufTable s ! j)) = None
                   \<and> (dirty (bufTable s ! j) \<longrightarrow>
                        dpages (disk (snd (flushFile f s))) (f, pageNo (bufTable s ! j))
                          = Some (bufPool s ! j)))
            \<and> (\<forall>j. i \<le> j \<longrightarrow> bufTable (snd (flushFile f s)) ! j = bufTable s ! j)
            \<and> bufPool (snd (flushFile f s)) = bufPool s"
      by (intro conjI)
  qed
  have B: "(\<forall>i<numBufs s. flush_verdict f s i = None) \<longrightarrow> fst (flushFile f s) = OK"
    using flushFile_passes by blast
  have C: "\<forall>s'. flushFile f s = (OK, s') \<longrightarrow>
          (\<forall>i<numBufs s. \<not> (valid (bufTable s' ! i) \<and> file (bufTable s' ! i) = Some f))
          \<and> (\<forall>p. hashTable s' (f, p) = None)
          \<and> (\<forall>i<numBufs s. valid (bufTable s ! i) \<and> file (bufTable s ! i) = Some f
                 \<and> dirty (bufTable s ! i) \<longrightarrow>
                 dpages (disk s') (f, pageNo (bufTable s ! i)) = Some (bufPool s ! i))"
  proof (intro allI impI)
    fix s' assume ok: "flushFile f s = (OK, s')"
    then have run: "flushFile_loop f [0..<numBufs s] s = (OK, s')" by (simp add: flushFile_def)
    have "\<forall>j\<in>set [0..<numBufs s]. j < numBufs s" by simp
    note P = flushFile_loop_OK [OF run distinct_upt assms this]
    from P have nv: "\<forall>i<numBufs s. \<not> (valid (bufTable s' ! i) \<and> file (bufTable s' ! i) = Some f)"
      and n': "numBufs s' = numBufs s"
      by simp_all
    from P have wr: "\<forall>i<numBufs s. valid (bufTable s ! i) \<and> file (bufTable s ! i) = Some f
                 \<and> dirty (bufTable s ! i) \<longrightarrow>
                 dpages (disk s') (f, pageNo (bufTable s ! i)) = Some (bufPool s ! i)"
      by simp
    from flushFile_inv [OF ok assms] have co': "coherent s'" by simp
    have hn: "\<forall>p. hashTable s' (f, p) = None"
    proof
      fix p
      show "hashTable s' (f, p) = None"
      proof (cases "hashTable s' (f, p)")
        case (Some k)
        from coherentD2 [OF co' Some] nv n' show ?thesis by auto
      qed simp
    qed
    from nv hn wr
    show "(\<forall>i<numBufs s. \<not> (valid (bufTable s' ! i) \<and> file (bufTable s' ! i) = Some f))
          \<and> (\<forall>p. hashTable s' (f, p) = None)
          \<and> (\<forall>i<numBufs s. valid (bufTable s ! i) \<and> file (bufTable s ! i) = Some f
                 \<and> dirty (bufTable s ! i) \<longrightarrow>
                 dpages (disk s') (f, pageNo (bufTable s ! i)) = Some (bufPool s ! i))"
      by blast
  qed
  from A B C show ?thesis by (intro conjI)
qed

theorem flushFile_contract_witness:
  "wf_bufs s_unp \<and> coherent s_unp \<and> wf_bufs s_fl \<and> coherent s_fl
   \<and> wf_bufs s_part \<and> coherent s_part
   \<and> fst (flushFile 0 s_fl) = BADPAGENO
   \<and> fst (flushFile 0 s_part) = PAGEPINNED
   \<and> \<not> (valid (bufTable (snd (flushFile 0 s_part)) ! 0)
          \<and> file (bufTable (snd (flushFile 0 s_part)) ! 0) = Some 0)
   \<and> hashTable (snd (flushFile 0 s_part)) (0, 0) = None
   \<and> dpages (disk (snd (flushFile 0 s_part))) (0, 0) = Some (DataPage [Some ''a''] (- 1) 0)
   \<and> bufTable (snd (flushFile 0 s_part)) ! 1 = bufTable s_part ! 1
   \<and> (\<exists>s'. flushFile 0 s_unp = (OK, s')
         \<and> \<not> (valid (bufTable s' ! 0) \<and> file (bufTable s' ! 0) = Some 0)
         \<and> hashTable s' (0, 0) = None
         \<and> dpages (disk s') (0, 0) = Some (bufPool s_unp ! 0))"
proof -
  note U = flushFile_contract [OF s_unp_inv [THEN conjunct1] s_unp_inv [THEN conjunct2], of 0]
  note F = flushFile_contract [OF s_fl_inv [THEN conjunct1] s_fl_inv [THEN conjunct2], of 0]
  note Q = flushFile_contract [OF s_part_inv [THEN conjunct1] s_part_inv [THEN conjunct2], of 0]
  have v: "flush_verdict 0 s_fl 0 = Some BADPAGENO" "numBufs s_fl = 2"
    by (simp_all add: flush_verdict_def s_fl_def d0_def)
  from F [THEN conjunct1, rule_format, of 0 BADPAGENO] v
  have a: "fst (flushFile 0 s_fl) = BADPAGENO" by simp
  have w: "flush_verdict 0 s_part 1 = Some PAGEPINNED" "numBufs s_part = 2"
    "\<forall>j<1. flush_verdict 0 s_part j = None"
    "valid (bufTable s_part ! 0)" "file (bufTable s_part ! 0) = Some 0"
    "dirty (bufTable s_part ! 0)" "pageNo (bufTable s_part ! 0) = 0"
    "bufPool s_part ! 0 = DataPage [Some ''a''] (- 1) 0"
    by (simp_all add: flush_verdict_def s_part_def d0_def)
  from w have w': "1 < numBufs s_part \<and> flush_verdict 0 s_part 1 = Some PAGEPINNED
       \<and> (\<forall>j<1. flush_verdict 0 s_part j = None)" by simp
  note Q1 = Q [THEN conjunct1, rule_format, OF w']
  from Q1 have q1: "fst (flushFile 0 s_part) = PAGEPINNED" by simp
  from Q1 [THEN conjunct2, THEN conjunct2, THEN conjunct1, rule_format, of 0]
  have q2: "\<not> (valid (bufTable (snd (flushFile 0 s_part)) ! 0)
          \<and> file (bufTable (snd (flushFile 0 s_part)) ! 0) = Some 0)" by simp
  from Q1 [THEN conjunct2, THEN conjunct2, THEN conjunct2, THEN conjunct1, rule_format, of 0] w
  have q3: "hashTable (snd (flushFile 0 s_part)) (0, 0) = None"
    and q4: "dpages (disk (snd (flushFile 0 s_part))) (0, 0) = Some (DataPage [Some ''a''] (- 1) 0)"
    by simp_all
  from Q1 [THEN conjunct2, THEN conjunct2, THEN conjunct2, THEN conjunct2, THEN conjunct1,
      rule_format, of 1]
  have q5: "bufTable (snd (flushFile 0 s_part)) ! 1 = bufTable s_part ! 1" by simp
  have "\<forall>i<numBufs s_unp. flush_verdict 0 s_unp i = None"
    by (auto simp: flush_verdict_def s_unp_def d0_def less_Suc_eq numeral_2_eq_2)
  with U [THEN conjunct2, THEN conjunct1] have "fst (flushFile 0 s_unp) = OK" by blast
  then obtain s' where r: "flushFile 0 s_unp = (OK, s')"
    by (cases "flushFile 0 s_unp") auto
  have h: "numBufs s_unp = 2" "valid (bufTable s_unp ! 0)" "file (bufTable s_unp ! 0) = Some 0"
    "dirty (bufTable s_unp ! 0)" "pageNo (bufTable s_unp ! 0) = 0"
    by (simp_all add: s_unp_def)
  note C = U [THEN conjunct2, THEN conjunct2, rule_format, OF r]
  from C [THEN conjunct1, rule_format, of 0] h
  have b: "\<not> (valid (bufTable s' ! 0) \<and> file (bufTable s' ! 0) = Some 0)" by simp
  from C [THEN conjunct2, THEN conjunct1, rule_format, of 0]
  have c: "hashTable s' (0, 0) = None" .
  from C [THEN conjunct2, THEN conjunct2, rule_format, of 0] h
  have d: "dpages (disk s') (0, 0) = Some (bufPool s_unp ! 0)" by simp
  from s_unp_inv s_fl_inv s_part_inv a q1 q2 q3 q4 q5 r b c d show ?thesis by blast
qed

section \<open>Dirty pages stay dirty until they are written\<close>

lemma dirty_pageI:
  "hashTable s (f, p) = Some k \<Longrightarrow> dirty (bufTable s ! k) \<Longrightarrow> dirty_page f p s"
  by (simp add: dirty_page_def)

lemma dirty_pageE:
  assumes "dirty_page f p s"
  obtains k where "hashTable s (f, p) = Some k" "dirty (bufTable s ! k)"
  using assms by (auto simp: dirty_page_def split: option.splits)

lemma written_backI:
  "hashTable s (f, p) = Some k \<Longrightarrow> ioLog (disk s') = ioLog (disk s) @ xs \<Longrightarrow>
   WR f p \<in> set xs \<Longrightarrow> dpages (disk s') (f, p) = Some (bufPool s ! k) \<Longrightarrow>
   written_back f p s s'"
  by (simp add: written_back_def)

lemma allocBuf_dirty_page:
  assumes a: "allocBuf s = Some (st, fr, s')" and wf: "wf_bufs s" and co: "coherent s"
    and h: "hashTable s (f, p) = Some k" and d: "dirty (bufTable s ! k)"
  shows "(hashTable s' (f, p) = Some k \<and> dirty (bufTable s' ! k) \<and> fr \<noteq> Some k)
       \<or> (fr = Some k \<and> ioLog (disk s') = ioLog (disk s) @ [WR f p]
            \<and> dpages (disk s') (f, p) = Some (bufPool s ! k))"
proof -
  from allocBuf_post_holds [OF a wf] have post: "allocBuf_post s (st, fr, s')" .
  note ck = coherentD2 [OF co h]
  show ?thesis
  proof (cases fr)
    case None
    with post ck(1) have "eq_upto_refbit (bufTable s ! k) (bufTable s' ! k)"
      and "hashTable s' = hashTable s"
      by (auto simp: allocBuf_post_def)
    with eq_upto_refbit_fields(5) [OF this(1)] h d None show ?thesis by simp
  next
    case (Some v)
    with post have st: "st = OK" by (simp add: allocBuf_post_def)
    from post [unfolded st Some]
    have oth: "\<And>j. j < numBufs s \<Longrightarrow> j \<noteq> v \<Longrightarrow> eq_upto_refbit (bufTable s ! j) (bufTable s' ! j)"
      and vic: "victim_post s v s'" and vlt: "v < numBufs s"
      by (auto simp: allocBuf_post_def)
    show ?thesis
    proof (cases "v = k")
      case True
      with vic ck d have "ioLog (disk s') = ioLog (disk s) @ [WR f p]
          \<and> dpages (disk s') (f, p) = Some (bufPool s ! k)"
        by (auto simp: victim_post_def Let_def)
      with True Some show ?thesis by simp
    next
      case False
      then have kv: "k \<noteq> v" by simp
      from eq_upto_refbit_fields(5) [OF oth [OF ck(1) kv]] d
      have d': "dirty (bufTable s' ! k)" by simp
      have "hashTable s' (f, p) = Some k"
      proof (cases "valid (bufTable s ! v)")
        case False
        with vic h show ?thesis by (simp add: victim_post_def Let_def)
      next
        case True
        with vic obtain g where g: "file (bufTable s ! v) = Some g"
          "hashTable s' = (hashTable s)((g, pageNo (bufTable s ! v)) := None)"
          by (auto simp: victim_post_def Let_def)
        from coherentD1 [OF co wf vlt True] g(1)
        have "hashTable s (g, pageNo (bufTable s ! v)) = Some v" by simp
        with h False have "(g, pageNo (bufTable s ! v)) \<noteq> (f, p)" by auto
        with g(2) h show ?thesis by auto
      qed
      with d' Some False show ?thesis by simp
    qed
  qed
qed

lemma unPinPage_dirty_page:
  assumes u: "unPinPage g q dty s = (st, s')"
    and h: "hashTable s (f, p) = Some k" and d: "dirty (bufTable s ! k)"
  shows "hashTable s' (f, p) = Some k \<and> dirty (bufTable s' ! k)"
  using unPinPage_cases [OF u] h d by (auto simp: nth_list_update_if)

lemma disposePage_other:
  assumes dp: "disposePage g q s = (st, s')" and co: "coherent s"
    and ne: "(g, q) \<noteq> (f, p)"
    and h: "hashTable s (f, p) = Some k" and d: "dirty (bufTable s ! k)"
  shows "hashTable s' (f, p) = Some k \<and> dirty (bufTable s' ! k)"
proof -
  from disposePage_cases [OF dp] obtain d0 where
    c: "(hashTable s (g, q) = None \<and> s' = s\<lparr>hashTable := hashTable s, disk := d0\<rparr>)
     \<or> (\<exists>j. hashTable s (g, q) = Some j
           \<and> s' = s\<lparr>bufTable := (bufTable s)[j := Clear (bufTable s ! j)],
                    hashTable := (hashTable s)((g, q) := None), disk := d0\<rparr>)"
    by blast
  then show ?thesis
  proof (elim disjE conjE exE)
    assume "s' = s\<lparr>hashTable := hashTable s, disk := d0\<rparr>"
    with h d show ?thesis by simp
  next
    fix j assume j: "hashTable s (g, q) = Some j"
      and s': "s' = s\<lparr>bufTable := (bufTable s)[j := Clear (bufTable s ! j)],
                    hashTable := (hashTable s)((g, q) := None), disk := d0\<rparr>"
    from coherentD2 [OF co j] coherentD2 [OF co h] ne have "j \<noteq> k" by auto
    with h d ne show ?thesis by (auto simp: s' nth_list_update_if)
  qed
qed

lemma disposePage_clears:
  assumes h: "hashTable s (f, p) = Some k"
  shows "hashTable (snd (disposePage f p s)) (f, p) = None"
    and "k < length (bufTable s) \<Longrightarrow> \<not> dirty (bufTable (snd (disposePage f p s)) ! k)"
    and "ioLog (disk (snd (disposePage f p s))) = ioLog (disk s) @ [DISPOSE f p]"
proof -
  obtain st s' where dp: "disposePage f p s = (st, s')" by fastforce
  from disposePage_cases [OF dp] h obtain d0 where
    fd: "file_disposePage f p (disk s) = (st, d0)"
    and s': "s' = s\<lparr>bufTable := (bufTable s)[k := Clear (bufTable s ! k)],
                    hashTable := (hashTable s)((f, p) := None), disk := d0\<rparr>"
    by auto
  from fd have lg: "ioLog d0 = ioLog (disk s) @ [DISPOSE f p]"
    by (auto simp: file_disposePage_def Let_def split: option.splits)
  show "hashTable (snd (disposePage f p s)) (f, p) = None" by (simp add: dp s')
  show "\<not> dirty (bufTable (snd (disposePage f p s)) ! k)" if "k < length (bufTable s)"
    using that by (simp add: dp s' Clear_def)
  show "ioLog (disk (snd (disposePage f p s))) = ioLog (disk s) @ [DISPOSE f p]"
    by (simp add: dp s' lg)
qed

lemma kept_after:
  assumes "(hashTable s1 (f, p) = Some k \<and> dirty (bufTable s1 ! k) \<and> fr \<noteq> Some k)
       \<or> (fr = Some k \<and> ioLog (disk s1) = ioLog (disk s0) @ [WR f p]
            \<and> dpages (disk s1) (f, p) = Some c)"
    and "ioLog (disk s0) = ioLog (disk s) @ zs"
    and "hashTable s1 (f, p) = Some k \<Longrightarrow> hashTable s' (f, p) = Some k"
    and "fr \<noteq> Some k \<Longrightarrow> bufTable s' ! k = bufTable s1 ! k"
    and "ioLog (disk s') = ioLog (disk s1) @ ys"
    and "dpages (disk s') (f, p) = dpages (disk s1) (f, p)"
  shows "(hashTable s' (f, p) = Some k \<and> dirty (bufTable s' ! k))
       \<or> (\<exists>xs. ioLog (disk s') = ioLog (disk s) @ xs \<and> WR f p \<in> set xs
             \<and> dpages (disk s') (f, p) = Some c)"
  using assms by auto

lemma allocBuf_hash_sub:
  assumes a: "allocBuf s = Some (st, fr, s1)" and wf: "wf_bufs s"
    and n: "hashTable s key = None"
  shows "hashTable s1 key = None"
proof -
  from allocBuf_post_holds [OF a wf] have post: "allocBuf_post s (st, fr, s1)" .
  show ?thesis
  proof (cases fr)
    case None
    with post n show ?thesis by (simp add: allocBuf_post_def)
  next
    case (Some v)
    with post have "victim_post s v s1" by (simp add: allocBuf_post_def)
    from victim_post_hash [OF this, of key] n show ?thesis
      by (cases "hashTable s1 key") auto
  qed
qed

lemma readPage_dirty_page:
  assumes r: "readPage g q s = Some (st, fr, s')" and wf: "wf_bufs s" and co: "coherent s"
    and h: "hashTable s (f, p) = Some k" and d: "dirty (bufTable s ! k)"
  shows "(hashTable s' (f, p) = Some k \<and> dirty (bufTable s' ! k))
       \<or> (\<exists>xs. ioLog (disk s') = ioLog (disk s) @ xs \<and> WR f p \<in> set xs
             \<and> dpages (disk s') (f, p) = Some (bufPool s ! k))"
proof (cases "st = OK")
  case True
  from readPage_OK_cases [OF r [unfolded True]] obtain v where
    c: "readPage_hit g q s v s' \<or> readPage_miss g q s v s'" by blast
  then show ?thesis
  proof
    assume "readPage_hit g q s v s'"
    then have "s' = s\<lparr>bufTable := (bufTable s)
               [v := (bufTable s ! v)\<lparr>refbit := True, pinCnt := pinCnt (bufTable s ! v) + 1\<rparr>]\<rparr>"
      by (simp add: readPage_hit_def)
    with h d show ?thesis by (simp add: nth_list_update_if)
  next
    assume "readPage_miss g q s v s'"
    then obtain s1 content where a: "allocBuf s = Some (OK, Some v, s1)"
      and h1: "hashTable s1 (g, q) = None"
      and s': "disk s' = (disk s1)\<lparr>ioLog := ioLog (disk s1) @ [RD g q]\<rparr>"
        "hashTable s' = (hashTable s1)((g, q) \<mapsto> v)"
        "bufTable s' = (bufTable s1)
                 [v := \<lparr>file = Some g, pageNo = q, frameNo = v, pinCnt = 1,
                        dirty = False, valid = True, refbit = True\<rparr>]"
      by (auto simp: readPage_miss_def)
    show ?thesis
    proof (rule kept_after [OF allocBuf_dirty_page [OF a wf co h d], where zs = "[]"
          and ys = "[RD g q]"])
      show "hashTable s' (f, p) = Some k" if "hashTable s1 (f, p) = Some k"
        using that h1 by (auto simp: s')
      show "bufTable s' ! k = bufTable s1 ! k" if "Some v \<noteq> Some k"
        using that by (simp add: s' nth_list_update_if)
    qed (simp_all add: s')
  qed
next
  case False
  from readPage_fail_cases [OF r False] obtain ast afr s1 where
    hn: "hashTable s (g, q) = None" and a: "allocBuf s = Some (ast, afr, s1)"
    and c: "(ast \<noteq> OK \<and> st = ast \<and> fr = None \<and> s' = s1)
        \<or> (ast = OK \<and> (\<exists>k. afr = Some k) \<and> dpages (disk s1) (g, q) = None \<and> fr = None
             \<and> (st, s') = disposePage g q
                  (s1\<lparr>disk := (disk s1)\<lparr>ioLog := ioLog (disk s1) @ [RD g q]\<rparr>\<rparr>))
        \<or> (ast = OK \<and> (\<exists>k content. afr = Some k \<and> fr = Some k
             \<and> dpages (disk s1) (g, q) = Some content
             \<and> hashTable s1 (g, q) \<noteq> None \<and> st = HASHTBLERROR
             \<and> s' = s1\<lparr>disk := (disk s1)\<lparr>ioLog := ioLog (disk s1) @ [RD g q]\<rparr>,
                      bufPool := (bufPool s1)[k := content]\<rparr>))"
    by blast
  note h1 = allocBuf_hash_sub [OF a wf hn]
  note A = allocBuf_dirty_page [OF a wf co h d]
  from c show ?thesis
  proof (elim disjE conjE exE)
    assume fail: "s' = s1"
    show ?thesis
      by (rule kept_after [OF A, where zs = "[]" and ys = "[]"]) (simp_all add: fail)
  next
    assume read: "dpages (disk s1) (g, q) = None"
      "(st, s') = disposePage g q
                  (s1\<lparr>disk := (disk s1)\<lparr>ioLog := ioLog (disk s1) @ [RD g q]\<rparr>\<rparr>)"
    define t where "t = s1\<lparr>disk := (disk s1)\<lparr>ioLog := ioLog (disk s1) @ [RD g q]\<rparr>\<rparr>"
    from read(2) have dp: "disposePage g q t = (st, s')" by (simp add: t_def)
    from disposePage_cases [OF dp] h1 obtain d0 where
      fd: "file_disposePage g q (disk t) = (st, d0)"
      and s': "s' = t\<lparr>hashTable := hashTable t, disk := d0\<rparr>"
      by (auto simp: t_def)
    from fd read(1) have d0: "d0 = (disk t)\<lparr>ioLog := ioLog (disk t) @ [DISPOSE g q]\<rparr>"
      by (auto simp: file_disposePage_def Let_def t_def)
    show ?thesis
      by (rule kept_after [OF A, where zs = "[]" and ys = "[RD g q, DISPOSE g q]"])
         (simp_all add: s' d0 t_def)
  next
    assume "hashTable s1 (g, q) \<noteq> None"
    with h1 show ?thesis by simp
  qed
qed

lemma allocPage_dirty_page:
  assumes r: "allocPage g s = Some (st, res, s')" and wf: "wf_bufs s" and co: "coherent s"
    and h: "hashTable s (f, p) = Some k" and d: "dirty (bufTable s ! k)"
  shows "(hashTable s' (f, p) = Some k \<and> dirty (bufTable s' ! k))
       \<or> (\<exists>xs. ioLog (disk s') = ioLog (disk s) @ xs \<and> WR f p \<in> set xs
             \<and> dpages (disk s') (f, p) = Some (bufPool s ! k))"
proof -
  have lg: "\<And>x y dd. file_allocatePage g (disk s) = (x, y, dd) \<Longrightarrow>
      ioLog dd = ioLog (disk s) @ [ALLOC g (nalloc (disk s) g)]"
    by (auto simp: file_allocatePage_def Let_def)
  show ?thesis
  proof (cases "st = OK")
    case True
    from allocPage_OK_cases [OF r [unfolded True]] obtain v dd s1 where
      fa: "file_allocatePage g (disk s) = (OK, nalloc (disk s) g, dd)"
      and a: "allocBuf (s\<lparr>disk := dd\<rparr>) = Some (OK, Some v, s1)"
      and h1: "hashTable s1 (g, nalloc (disk s) g) = None"
      and s': "s' = s1\<lparr>hashTable := (hashTable s1)((g, nalloc (disk s) g) \<mapsto> v),
              bufTable := (bufTable s1)[v := Set g (nalloc (disk s) g) (bufTable s1 ! v)]\<rparr>"
      by blast
    have wf0: "wf_bufs (s\<lparr>disk := dd\<rparr>)" by (rule wf_bufs_cong [OF wf]) simp_all
    have co0: "coherent (s\<lparr>disk := dd\<rparr>)" by (rule coherent_cong [OF co]) simp_all
    from h d have h0: "hashTable (s\<lparr>disk := dd\<rparr>) (f, p) = Some k"
      and d0: "dirty (bufTable (s\<lparr>disk := dd\<rparr>) ! k)" by simp_all
    note A = allocBuf_dirty_page [OF a wf0 co0 h0 d0]
    have "(hashTable s' (f, p) = Some k \<and> dirty (bufTable s' ! k))
       \<or> (\<exists>xs. ioLog (disk s') = ioLog (disk s) @ xs \<and> WR f p \<in> set xs
             \<and> dpages (disk s') (f, p) = Some (bufPool (s\<lparr>disk := dd\<rparr>) ! k))"
    proof (rule kept_after [OF A, where ys = "[]"
          and zs = "[ALLOC g (nalloc (disk s) g)]"])
      show "ioLog (disk (s\<lparr>disk := dd\<rparr>)) = ioLog (disk s) @ [ALLOC g (nalloc (disk s) g)]"
        using lg [OF fa] by simp
      show "hashTable s' (f, p) = Some k" if "hashTable s1 (f, p) = Some k"
        using that h1 by (auto simp: s')
      show "bufTable s' ! k = bufTable s1 ! k" if "Some v \<noteq> Some k"
        using that by (simp add: s' nth_list_update_if)
    qed (simp_all add: s')
    then show ?thesis by simp
  next
    case False
    from allocPage_fail_cases [OF r False] obtain dd ast afr s1 where
      fa: "file_allocatePage g (disk s) = (OK, nalloc (disk s) g, dd)"
      and a: "allocBuf (s\<lparr>disk := dd\<rparr>) = Some (ast, afr, s1)"
      and s': "s' = s1" by blast
    have wf0: "wf_bufs (s\<lparr>disk := dd\<rparr>)" by (rule wf_bufs_cong [OF wf]) simp_all
    have co0: "coherent (s\<lparr>disk := dd\<rparr>)" by (rule coherent_cong [OF co]) simp_all
    from h d have h0: "hashTable (s\<lparr>disk := dd\<rparr>) (f, p) = Some k"
      and d0: "dirty (bufTable (s\<lparr>disk := dd\<rparr>) ! k)" by simp_all
    note A = allocBuf_dirty_page [OF a wf0 co0 h0 d0]
    have "(hashTable s' (f, p) = Some k \<and> dirty (bufTable s' ! k))
       \<or> (\<exists>xs. ioLog (disk s') = ioLog (disk s) @ xs \<and> WR f p \<in> set xs
             \<and> dpages (disk s') (f, p) = Some (bufPool (s\<lparr>disk := dd\<rparr>) ! k))"
    proof (rule kept_after [OF A, where ys = "[]"
          and zs = "[ALLOC g (nalloc (disk s) g)]"])
      show "ioLog (disk (s\<lparr>disk := dd\<rparr>)) = ioLog (disk s) @ [ALLOC g (nalloc (disk s) g)]"
        using lg [OF fa] by simp
    qed (simp_all add: s')
    then show ?thesis by simp
  qed
qed

lemma flushFrame_log:
  "\<exists>xs. ioLog (disk (flushFrame f i s)) = ioLog (disk s) @ xs"
  by (auto simp: flushFrame_def Let_def file_writePage_def split: option.splits)

lemma flush_stop_log:
  "\<exists>xs. ioLog (disk (flush_stop f i s)) = ioLog (disk s) @ xs"
  by (auto simp: flush_stop_def Let_def file_writePage_def split: option.splits)

text \<open>
  What the loop of \<open>flushFile\<close> does at any status: the log of the file store grows, the
  pool stays, the frames it does not visit stay, and a page on disk changes only if it
  is the page of a valid frame of the file among those to visit.
\<close>

lemma flushFile_loop_any:
  "flushFile_loop f js s = (st, s') \<Longrightarrow>
   (\<exists>xs. ioLog (disk s') = ioLog (disk s) @ xs) \<and> bufPool s' = bufPool s
   \<and> (\<forall>key. dpages (disk s') key \<noteq> dpages (disk s) key \<longrightarrow>
          (\<exists>j\<in>set js. valid (bufTable s ! j) \<and> file (bufTable s ! j) = Some f
               \<and> key = (f, pageNo (bufTable s ! j))))"
proof (induction js arbitrary: s)
  case Nil
  then show ?case by simp
next
  case (Cons i rest)
  show ?case
  proof (cases "flush_verdict f s i")
    case (Some v)
    from flush_step_stop [OF Some, of rest] Cons.prems
    have s': "s' = flush_stop f i s" by simp
    from flush_stop_log [of f i s] flush_stop_fields(2) [where f = f and i = i and s = s]
      flush_stop_fields(5) [OF Some]
    show ?thesis by (simp add: s')
  next
    case None
    define s2 where "s2 = flushFrame f i s"
    from flush_step_None [OF None, of rest] Cons.prems
    have run: "flushFile_loop f rest s2 = (st, s')" by (simp add: s2_def)
    note IH = Cons.IH [OF run]
    note fld = flushFrame_fields [where f = f and i = i and s = s, folded s2_def]
    from flushFrame_log [of f i s] obtain ys where
      ys: "ioLog (disk s2) = ioLog (disk s) @ ys" by (auto simp: s2_def)
    from IH obtain xs where xs: "ioLog (disk s') = ioLog (disk s2) @ xs" by blast
    have lg: "\<exists>xs. ioLog (disk s') = ioLog (disk s) @ xs" using xs ys by simp
    have pool: "bufPool s' = bufPool s" using IH fld by simp
    have dk: "\<forall>key. dpages (disk s') key \<noteq> dpages (disk s) key \<longrightarrow>
          (\<exists>j\<in>set (i # rest). valid (bufTable s ! j) \<and> file (bufTable s ! j) = Some f
               \<and> key = (f, pageNo (bufTable s ! j)))"
    proof (intro allI impI)
      fix key assume ne: "dpages (disk s') key \<noteq> dpages (disk s) key"
      show "\<exists>j\<in>set (i # rest). valid (bufTable s ! j) \<and> file (bufTable s ! j) = Some f
               \<and> key = (f, pageNo (bufTable s ! j))"
      proof (cases "dpages (disk s2) key = dpages (disk s) key")
        case False
        then have "valid (bufTable s ! i) \<and> file (bufTable s ! i) = Some f
            \<and> key = (f, pageNo (bufTable s ! i))"
          by (auto simp: s2_def flushFrame_dpages split: if_splits)
        then show ?thesis by simp
      next
        case True
        with ne have ne2: "dpages (disk s') key \<noteq> dpages (disk s2) key" by simp
        from IH have "\<forall>key. dpages (disk s') key \<noteq> dpages (disk s2) key \<longrightarrow>
          (\<exists>j\<in>set rest. valid (bufTable s2 ! j) \<and> file (bufTable s2 ! j) = Some f
               \<and> key = (f, pageNo (bufTable s2 ! j)))" by (elim conjE)
        with ne2 obtain j where j: "j \<in> set rest" "valid (bufTable s2 ! j)"
          "file (bufTable s2 ! j) = Some f" "key = (f, pageNo (bufTable s2 ! j))"
          by blast
        show ?thesis
        proof (cases "j = i")
          case True
          with j have "valid (bufTable s ! i) \<and> file (bufTable s ! i) = Some f"
            by (auto simp: s2_def flushFrame_def Let_def nth_list_update_if split: if_splits)
          moreover from this j True have "key = (f, pageNo (bufTable s ! i))"
            by (auto simp: s2_def flushFrame_def Let_def nth_list_update_if split: if_splits)
          ultimately show ?thesis by simp
        next
          case False
          with j fld(4) [of j] show ?thesis by auto
        qed
      qed
    qed
    from lg pool dk show ?thesis by simp
  qed
qed

lemma flushFile_loop_dirty_page:
  "flushFile_loop g js s = (st, s') \<Longrightarrow> wf_bufs s \<Longrightarrow> coherent s \<Longrightarrow>
   \<forall>j\<in>set js. j < numBufs s \<Longrightarrow> distinct js \<Longrightarrow>
   hashTable s (f, p) = Some k \<Longrightarrow> dirty (bufTable s ! k) \<Longrightarrow>
   (hashTable s' (f, p) = Some k \<and> dirty (bufTable s' ! k))
   \<or> (\<exists>xs. ioLog (disk s') = ioLog (disk s) @ xs \<and> WR f p \<in> set xs
         \<and> dpages (disk s') (f, p) = Some (bufPool s ! k))"
proof (induction js arbitrary: s)
  case Nil
  then show ?case by simp
next
  case (Cons i rest)
  note wf = Cons.prems(2) and co = Cons.prems(3)
  note h = Cons.prems(6) and d = Cons.prems(7)
  from Cons.prems have ilt: "i < numBufs s" and dr: "distinct rest" and ni: "i \<notin> set rest"
    and rlt: "\<forall>j\<in>set rest. j < numBufs s" by auto
  note ck = coherentD2 [OF co h]
  show ?case
  proof (cases "flush_verdict g s i")
    case (Some v)
    from flush_step_stop [OF Some, of rest] Cons.prems(1)
    have s': "s' = flush_stop g i s" by simp
    with h d show ?thesis by (simp add: flush_stop_fields)
  next
    case None
    define s2 where "s2 = flushFrame g i s"
    from flush_step_None [OF None, of rest] Cons.prems(1)
    have run: "flushFile_loop g rest s2 = (st, s')" by (simp add: s2_def)
    note inv2 = flushFrame_inv [OF wf co ilt, of g, folded s2_def]
    note fld = flushFrame_fields [where f = g and i = i and s = s, folded s2_def]
    from rlt fld have rlt2: "\<forall>j\<in>set rest. j < numBufs s2" by simp
    from flushFrame_log [of g i s] obtain ys where
      ys: "ioLog (disk s2) = ioLog (disk s) @ ys" by (auto simp: s2_def)
    show ?thesis
    proof (cases "i = k \<and> g = f")
      case True
      with ck d None have al: "dpages (disk s) (f, p) \<noteq> None" and np: "\<not> pinCnt (bufTable s ! k) > 0"
        by (auto simp: flush_verdict_def Let_def split: if_splits)
      then obtain old where old: "dpages (disk s) (f, p) = Some old" by auto
      from True ck d old have d2: "disk s2 = (disk s)\<lparr>ioLog := ioLog (disk s) @ [WR f p],
                        dpages := (dpages (disk s))((f, p) \<mapsto> bufPool s ! k)\<rparr>"
        by (simp add: s2_def flushFrame_def Let_def file_writePage_def)
      note any = flushFile_loop_any [OF run]
      from any obtain xs where xs: "ioLog (disk s') = ioLog (disk s2) @ xs" by blast
      have keep: "dpages (disk s') (f, p) = dpages (disk s2) (f, p)"
      proof (rule ccontr)
        assume "dpages (disk s') (f, p) \<noteq> dpages (disk s2) (f, p)"
        with any True obtain j where j: "j \<in> set rest" "valid (bufTable s2 ! j)"
          "file (bufTable s2 ! j) = Some f" "(f, p) = (f, pageNo (bufTable s2 ! j))"
          by blast
        from j(1) ni have ji: "j \<noteq> i" by auto
        from j fld(4) [OF ji] have "valid (bufTable s ! j)" "file (bufTable s ! j) = Some f"
          "pageNo (bufTable s ! j) = p" by simp_all
        with coherentD1 [OF co wf, of j] rlt j(1) have "hashTable s (f, p) = Some j" by auto
        with h True ji show False by simp
      qed
      from xs d2 keep
      have "ioLog (disk s') = ioLog (disk s) @ (WR f p # xs) \<and> WR f p \<in> set (WR f p # xs)
         \<and> dpages (disk s') (f, p) = Some (bufPool s ! k)" by simp
      then show ?thesis by blast
    next
      case False
      have h2: "hashTable s2 (f, p) = Some k \<and> dirty (bufTable s2 ! k)"
      proof (cases "valid (bufTable s ! i) \<and> file (bufTable s ! i) = Some g")
        case False
        then have "s2 = s" by (auto simp: s2_def flushFrame_def Let_def)
        with h d show ?thesis by simp
      next
        case True
        from coherentD1 [OF co wf ilt] True
        have hi: "hashTable s (g, pageNo (bufTable s ! i)) = Some i" by auto
        have ik: "i \<noteq> k"
        proof
          assume "i = k"
          with True ck False show False by simp
        qed
        with hi h have kne: "(g, pageNo (bufTable s ! i)) \<noteq> (f, p)" by auto
        from True hi have "hashTable s2 = (hashTable s)((g, pageNo (bufTable s ! i)) := None)"
          by (simp add: s2_def flushFrame_def Let_def remove_h_def)
        with kne h have "hashTable s2 (f, p) = Some k" by auto
        moreover from fld(4) [of k] ik d have "dirty (bufTable s2 ! k)" by simp
        ultimately show ?thesis by simp
      qed
      from Cons.IH [OF run inv2 rlt2 dr] h2
      have "(hashTable s' (f, p) = Some k \<and> dirty (bufTable s' ! k))
         \<or> (\<exists>xs. ioLog (disk s') = ioLog (disk s2) @ xs \<and> WR f p \<in> set xs
               \<and> dpages (disk s') (f, p) = Some (bufPool s2 ! k))" by simp
      with ys fld(2) show ?thesis by auto
    qed
  qed
qed

lemma flushFile_dirty_page:
  assumes "flushFile g s = (st, s')" "wf_bufs s" "coherent s"
    "hashTable s (f, p) = Some k" "dirty (bufTable s ! k)"
  shows "(hashTable s' (f, p) = Some k \<and> dirty (bufTable s' ! k))
   \<or> (\<exists>xs. ioLog (disk s') = ioLog (disk s) @ xs \<and> WR f p \<in> set xs
         \<and> dpages (disk s') (f, p) = Some (bufPool s ! k))"
  using flushFile_loop_dirty_page [of g "[0..<numBufs s]" s st s' f p k] assms
  by (simp add: flushFile_def)

section \<open>The contract of unPinPage\<close>

lemma unPinPage_dirty_mono:
  assumes "unPinPage f p d s = (st, s')" "dirty (bufTable s ! i)"
  shows "dirty (bufTable s' ! i)"
  using unPinPage_cases [OF assms(1)] assms(2)
  by (auto simp: nth_list_update_if)

lemma allocBuf_dirty_kept:
  assumes a: "allocBuf s = Some (st, fr, s')" and wf: "wf_bufs s"
    and i: "i < numBufs s" "valid (bufTable s ! i)" "dirty (bufTable s ! i)"
      "file (bufTable s ! i) = Some g"
  shows "(valid (bufTable s' ! i) \<and> dirty (bufTable s' ! i)
           \<and> file (bufTable s' ! i) = Some g \<and> pageNo (bufTable s' ! i) = pageNo (bufTable s ! i)
           \<and> bufPool s' ! i = bufPool s ! i)
         \<or> (fr = Some i
              \<and> dpages (disk s') (g, pageNo (bufTable s ! i)) = Some (bufPool s ! i))"
proof -
  from allocBuf_post_holds [OF a wf] have post: "allocBuf_post s (st, fr, s')" .
  show ?thesis
  proof (cases fr)
    case None
    with post i(1) have "eq_upto_refbit (bufTable s ! i) (bufTable s' ! i)"
      and "bufPool s' = bufPool s"
      by (auto simp: allocBuf_post_def)
    with eq_upto_refbit_fields [OF this(1)] i show ?thesis by simp
  next
    case (Some k)
    with post have st: "st = OK" by (simp add: allocBuf_post_def)
    from post [unfolded st Some]
    have oth: "\<And>j. j < numBufs s \<Longrightarrow> j \<noteq> k \<Longrightarrow> eq_upto_refbit (bufTable s ! j) (bufTable s' ! j)"
      and vic: "victim_post s k s'" and pool: "bufPool s' = bufPool s"
      by (auto simp: allocBuf_post_def)
    show ?thesis
    proof (cases "i = k")
      case False
      from eq_upto_refbit_fields [OF oth [OF i(1) False]] i pool show ?thesis by simp
    next
      case True
      with vic i have "dpages (disk s') (g, pageNo (bufTable s ! i)) = Some (bufPool s ! i)"
        by (auto simp: victim_post_def Let_def)
      with True Some show ?thesis by simp
    qed
  qed
qed

text \<open>
  The page \<open>(g, q)\<close>, dirty in the state \<open>s\<close>, after each of the operations: still dirty,
  or written back.
\<close>

lemma dirty_page_kept:
  assumes wf: "wf_bufs s" and co: "coherent s" and dp: "dirty_page g q s"
  shows "readPage f p s = Some (st, fr, s') \<Longrightarrow> dirty_page g q s' \<or> written_back g q s s'"
    and "allocPage f s = Some (st, r, s') \<Longrightarrow> dirty_page g q s' \<or> written_back g q s s'"
    and "unPinPage f p dty s = (st, s') \<Longrightarrow> dirty_page g q s'"
    and "flushFile f s = (st, s') \<Longrightarrow> dirty_page g q s' \<or> written_back g q s s'"
    and "allocBuf s = Some (st, fr, s') \<Longrightarrow> dirty_page g q s' \<or> written_back g q s s'"
    and "(f, p) \<noteq> (g, q) \<Longrightarrow> disposePage f p s = (st, s') \<Longrightarrow> dirty_page g q s'"
    and "\<not> dirty_page g q (snd (disposePage g q s))"
    and "ioLog (disk (snd (disposePage g q s))) = ioLog (disk s) @ [DISPOSE g q]"
proof -
  from dp obtain k where h: "hashTable s (g, q) = Some k" and d: "dirty (bufTable s ! k)"
    by (rule dirty_pageE)
  have fin: "dirty_page g q s' \<or> written_back g q s s'"
    if "(hashTable s' (g, q) = Some k \<and> dirty (bufTable s' ! k))
       \<or> (\<exists>xs. ioLog (disk s') = ioLog (disk s) @ xs \<and> WR g q \<in> set xs
             \<and> dpages (disk s') (g, q) = Some (bufPool s ! k))" for s'
    using that h by (auto intro: dirty_pageI written_backI)
  show "dirty_page g q s' \<or> written_back g q s s'" if "readPage f p s = Some (st, fr, s')"
    by (rule fin [OF readPage_dirty_page [OF that wf co h d]])
  show "dirty_page g q s' \<or> written_back g q s s'" if "allocPage f s = Some (st, r, s')"
    by (rule fin [OF allocPage_dirty_page [OF that wf co h d]])
  show "dirty_page g q s'" if "unPinPage f p dty s = (st, s')"
    using unPinPage_dirty_page [OF that h d] by (auto intro: dirty_pageI)
  show "dirty_page g q s' \<or> written_back g q s s'" if "flushFile f s = (st, s')"
    by (rule fin [OF flushFile_dirty_page [OF that wf co h d]])
  show "dirty_page g q s' \<or> written_back g q s s'" if "allocBuf s = Some (st, fr, s')"
  proof (rule fin)
    from allocBuf_dirty_page [OF that wf co h d]
    show "(hashTable s' (g, q) = Some k \<and> dirty (bufTable s' ! k))
       \<or> (\<exists>xs. ioLog (disk s') = ioLog (disk s) @ xs \<and> WR g q \<in> set xs
             \<and> dpages (disk s') (g, q) = Some (bufPool s ! k))" by auto
  qed
  show "dirty_page g q s'" if "(f, p) \<noteq> (g, q)" "disposePage f p s = (st, s')"
    using disposePage_other [OF that(2) co that(1) h d] by (auto intro: dirty_pageI)
  show "\<not> dirty_page g q (snd (disposePage g q s))"
    using disposePage_clears(1) [OF h] by (simp add: dirty_page_def)
  show "ioLog (disk (snd (disposePage g q s))) = ioLog (disk s) @ [DISPOSE g q]"
    by (rule disposePage_clears(3) [OF h])
qed

text \<open>
  C5, as stated, fails in its last part: a page that was unpinned dirty does not stay
  dirty until it is written back, because \<open>disposePage\<close> clears the frame without a
  write. On a new buffer manager, after readPage(0) and unPinPage(0, dirty = true) page 0
  is dirty; disposePage(0) returns \<open>OK\<close>, the dirty bit of frame 0 is clear and the page
  is no longer resident, and the file store has seen the read and the disposal only.
\<close>

theorem dirty_page_disposed_counterexample:
  "run_dispose = Some (True, OK, False, False, [RD 0 0, DISPOSE 0 0])"
  by code_simp

text \<open>
  C5, amended. \<open>unPinPage(file, pageNo, dirty)\<close>: \<open>HASHNOTFOUND\<close> when the page is not
  resident and \<open>PAGENOTPINNED\<close> when the pin count of its frame is 0, the state unchanged
  in both cases; otherwise the pin count is decremented and the dirty bit is set when
  dirty = true and left as it is when dirty = false. No call of \<open>unPinPage\<close> clears the
  dirty bit of any frame. A call of \<open>allocBuf\<close> leaves a valid dirty frame valid, dirty
  and with its page and content, unless it chooses that frame, and then the page on disk
  is the content of the frame. In a coherent pool a dirty resident page is, after
  \<open>readPage\<close>, \<open>allocPage\<close>, \<open>unPinPage\<close>, \<open>flushFile\<close>, \<open>allocBuf\<close> (whatever they
  return) and after \<open>disposePage\<close> of another page, still resident and dirty, or it was
  written back: the file store was asked to write it and has the content of its frame.
  \<open>disposePage\<close> of the page itself ends this without a write: the page is no longer
  resident and the file store sees the disposal only.
\<close>

theorem unPinPage_contract:
  "(hashTable s (f, p) = None \<longrightarrow> unPinPage f p d s = (HASHNOTFOUND, s))
   \<and> (\<forall>k. hashTable s (f, p) = Some k \<and> pinCnt (bufTable s ! k) = 0 \<longrightarrow>
          unPinPage f p d s = (PAGENOTPINNED, s))
   \<and> (\<forall>k. hashTable s (f, p) = Some k \<and> pinCnt (bufTable s ! k) \<noteq> 0 \<longrightarrow>
          unPinPage f p d s =
            (OK, s\<lparr>bufTable := (bufTable s)
                   [k := (bufTable s ! k)\<lparr>dirty := (d \<or> dirty (bufTable s ! k)),
                                          pinCnt := pinCnt (bufTable s ! k) - 1\<rparr>]\<rparr>))
   \<and> (\<forall>i. dirty (bufTable s ! i) \<longrightarrow> dirty (bufTable (snd (unPinPage f p d s)) ! i))
   \<and> (\<forall>st fr s' i g.
          wf_bufs s \<and> allocBuf s = Some (st, fr, s') \<and> i < numBufs s
          \<and> valid (bufTable s ! i) \<and> dirty (bufTable s ! i) \<and> file (bufTable s ! i) = Some g \<longrightarrow>
          (valid (bufTable s' ! i) \<and> dirty (bufTable s' ! i)
             \<and> file (bufTable s' ! i) = Some g
             \<and> pageNo (bufTable s' ! i) = pageNo (bufTable s ! i)
             \<and> bufPool s' ! i = bufPool s ! i)
          \<or> (fr = Some i
               \<and> dpages (disk s') (g, pageNo (bufTable s ! i)) = Some (bufPool s ! i)))
   \<and> (\<forall>g q. wf_bufs s \<and> coherent s \<and> dirty_page g q s \<longrightarrow>
          (\<forall>f' p' st fr s'. readPage f' p' s = Some (st, fr, s') \<longrightarrow>
               dirty_page g q s' \<or> written_back g q s s')
        \<and> (\<forall>f' st r s'. allocPage f' s = Some (st, r, s') \<longrightarrow>
               dirty_page g q s' \<or> written_back g q s s')
        \<and> (\<forall>f' p' dty st s'. unPinPage f' p' dty s = (st, s') \<longrightarrow> dirty_page g q s')
        \<and> (\<forall>f' st s'. flushFile f' s = (st, s') \<longrightarrow>
               dirty_page g q s' \<or> written_back g q s s')
        \<and> (\<forall>st fr s'. allocBuf s = Some (st, fr, s') \<longrightarrow>
               dirty_page g q s' \<or> written_back g q s s')
        \<and> (\<forall>f' p' st s'. (f', p') \<noteq> (g, q) \<and> disposePage f' p' s = (st, s') \<longrightarrow>
               dirty_page g q s')
        \<and> \<not> dirty_page g q (snd (disposePage g q s))
        \<and> ioLog (disk (snd (disposePage g q s))) = ioLog (disk s) @ [DISPOSE g q])"
proof -
  obtain st0 s0 where u: "unPinPage f p d s = (st0, s0)" by fastforce
  note c = unPinPage_cases [OF u]
  have A: "hashTable s (f, p) = None \<longrightarrow> unPinPage f p d s = (HASHNOTFOUND, s)"
    using c u by auto
  have B: "\<forall>k. hashTable s (f, p) = Some k \<and> pinCnt (bufTable s ! k) = 0 \<longrightarrow>
          unPinPage f p d s = (PAGENOTPINNED, s)"
    using c u by auto
  have C: "\<forall>k. hashTable s (f, p) = Some k \<and> pinCnt (bufTable s ! k) \<noteq> 0 \<longrightarrow>
          unPinPage f p d s =
            (OK, s\<lparr>bufTable := (bufTable s)
                   [k := (bufTable s ! k)\<lparr>dirty := (d \<or> dirty (bufTable s ! k)),
                                          pinCnt := pinCnt (bufTable s ! k) - 1\<rparr>]\<rparr>)"
    using c u by auto
  have D: "\<forall>i. dirty (bufTable s ! i) \<longrightarrow> dirty (bufTable (snd (unPinPage f p d s)) ! i)"
    using unPinPage_dirty_mono [OF u] u by simp
  have E: "\<forall>st fr s' i g.
          wf_bufs s \<and> allocBuf s = Some (st, fr, s') \<and> i < numBufs s
          \<and> valid (bufTable s ! i) \<and> dirty (bufTable s ! i) \<and> file (bufTable s ! i) = Some g \<longrightarrow>
          (valid (bufTable s' ! i) \<and> dirty (bufTable s' ! i)
             \<and> file (bufTable s' ! i) = Some g
             \<and> pageNo (bufTable s' ! i) = pageNo (bufTable s ! i)
             \<and> bufPool s' ! i = bufPool s ! i)
          \<or> (fr = Some i
               \<and> dpages (disk s') (g, pageNo (bufTable s ! i)) = Some (bufPool s ! i))"
    using allocBuf_dirty_kept [of s] by blast
  have F: "\<forall>g q. wf_bufs s \<and> coherent s \<and> dirty_page g q s \<longrightarrow>
          (\<forall>f' p' st fr s'. readPage f' p' s = Some (st, fr, s') \<longrightarrow>
               dirty_page g q s' \<or> written_back g q s s')
        \<and> (\<forall>f' st r s'. allocPage f' s = Some (st, r, s') \<longrightarrow>
               dirty_page g q s' \<or> written_back g q s s')
        \<and> (\<forall>f' p' dty st s'. unPinPage f' p' dty s = (st, s') \<longrightarrow> dirty_page g q s')
        \<and> (\<forall>f' st s'. flushFile f' s = (st, s') \<longrightarrow>
               dirty_page g q s' \<or> written_back g q s s')
        \<and> (\<forall>st fr s'. allocBuf s = Some (st, fr, s') \<longrightarrow>
               dirty_page g q s' \<or> written_back g q s s')
        \<and> (\<forall>f' p' st s'. (f', p') \<noteq> (g, q) \<and> disposePage f' p' s = (st, s') \<longrightarrow>
               dirty_page g q s')
        \<and> \<not> dirty_page g q (snd (disposePage g q s))
        \<and> ioLog (disk (snd (disposePage g q s))) = ioLog (disk s) @ [DISPOSE g q]"
  proof (intro allI impI)
    fix g q assume "wf_bufs s \<and> coherent s \<and> dirty_page g q s"
    then have wf: "wf_bufs s" and co: "coherent s" and dp: "dirty_page g q s" by simp_all
    note K = dirty_page_kept [OF wf co dp]
    have 1: "\<forall>f' p' st fr s'. readPage f' p' s = Some (st, fr, s') \<longrightarrow>
               dirty_page g q s' \<or> written_back g q s s'" using K(1) by blast
    have 2: "\<forall>f' st r s'. allocPage f' s = Some (st, r, s') \<longrightarrow>
               dirty_page g q s' \<or> written_back g q s s'" using K(2) by blast
    have 3: "\<forall>f' p' dty st s'. unPinPage f' p' dty s = (st, s') \<longrightarrow> dirty_page g q s'"
      using K(3) by blast
    have 4: "\<forall>f' st s'. flushFile f' s = (st, s') \<longrightarrow>
               dirty_page g q s' \<or> written_back g q s s'" using K(4) by blast
    have 5: "\<forall>st fr s'. allocBuf s = Some (st, fr, s') \<longrightarrow>
               dirty_page g q s' \<or> written_back g q s s'" using K(5) by blast
    have 6: "\<forall>f' p' st s'. (f', p') \<noteq> (g, q) \<and> disposePage f' p' s = (st, s') \<longrightarrow>
               dirty_page g q s'" using K(6) by blast
    from 1 2 3 4 5 6 K(7) K(8)
    show "(\<forall>f' p' st fr s'. readPage f' p' s = Some (st, fr, s') \<longrightarrow>
               dirty_page g q s' \<or> written_back g q s s')
        \<and> (\<forall>f' st r s'. allocPage f' s = Some (st, r, s') \<longrightarrow>
               dirty_page g q s' \<or> written_back g q s s')
        \<and> (\<forall>f' p' dty st s'. unPinPage f' p' dty s = (st, s') \<longrightarrow> dirty_page g q s')
        \<and> (\<forall>f' st s'. flushFile f' s = (st, s') \<longrightarrow>
               dirty_page g q s' \<or> written_back g q s s')
        \<and> (\<forall>st fr s'. allocBuf s = Some (st, fr, s') \<longrightarrow>
               dirty_page g q s' \<or> written_back g q s s')
        \<and> (\<forall>f' p' st s'. (f', p') \<noteq> (g, q) \<and> disposePage f' p' s = (st, s') \<longrightarrow>
               dirty_page g q s')
        \<and> \<not> dirty_page g q (snd (disposePage g q s))
        \<and> ioLog (disk (snd (disposePage g q s))) = ioLog (disk s) @ [DISPOSE g q]"
      by (intro conjI)
  qed
  from A B C D E F show ?thesis by (intro conjI)
qed

theorem unPinPage_contract_witness:
  "unPinPage 0 5 True s_dirty = (HASHNOTFOUND, s_dirty)
   \<and> unPinPage 0 1 True s_dirty = (PAGENOTPINNED, s_dirty)
   \<and> fst (unPinPage 0 0 False s_dirty) = OK
   \<and> dirty (bufTable (snd (unPinPage 0 0 False s_dirty)) ! 0)
   \<and> (\<exists>st fr s'. allocBuf s_dirty = Some (st, fr, s') \<and> fr = Some 1
         \<and> dirty (bufTable s' ! 0)
         \<and> dpages (disk s') (0, 1) = Some (bufPool s_dirty ! 1))
   \<and> wf_bufs s_dirty \<and> coherent s_dirty \<and> dirty_page 0 1 s_dirty
   \<and> (\<exists>st fr s'. readPage 0 2 s_dirty = Some (st, fr, s')
         \<and> (dirty_page 0 1 s' \<or> written_back 0 1 s_dirty s'))
   \<and> (\<exists>st r s'. allocPage 0 s_dirty = Some (st, r, s')
         \<and> (dirty_page 0 1 s' \<or> written_back 0 1 s_dirty s'))
   \<and> dirty_page 0 1 (snd (unPinPage 0 0 False s_dirty))
   \<and> (dirty_page 0 1 (snd (flushFile 0 s_dirty))
        \<or> written_back 0 1 s_dirty (snd (flushFile 0 s_dirty)))
   \<and> (\<exists>st fr s'. allocBuf s_dirty = Some (st, fr, s')
         \<and> (dirty_page 0 1 s' \<or> written_back 0 1 s_dirty s'))
   \<and> dirty_page 0 1 (snd (disposePage 0 0 s_dirty))
   \<and> \<not> dirty_page 0 1 (snd (disposePage 0 1 s_dirty))
   \<and> ioLog (disk (snd (disposePage 0 1 s_dirty))) = ioLog (disk s_dirty) @ [DISPOSE 0 1]"
proof -
  have h: "hashTable s_dirty (0, 5) = None" "hashTable s_dirty (0, 1) = Some 1"
    "hashTable s_dirty (0, 0) = Some 0"
    "pinCnt (bufTable s_dirty ! 1) = 0" "pinCnt (bufTable s_dirty ! 0) \<noteq> 0"
    "dirty (bufTable s_dirty ! 0)" "dirty (bufTable s_dirty ! 1)"
    "valid (bufTable s_dirty ! 0)" "valid (bufTable s_dirty ! 1)"
    "file (bufTable s_dirty ! 0) = Some 0" "file (bufTable s_dirty ! 1) = Some 0"
    "pageNo (bufTable s_dirty ! 1) = 1" "numBufs s_dirty = 2"
    by (simp_all add: s_dirty_def)
  have wf: "wf_bufs s_dirty"
    by (auto simp: wf_bufs_def s_dirty_def less_Suc_eq numeral_2_eq_2)
  have co: "coherent s_dirty"
    by (auto simp: coherent_def s_dirty_def less_Suc_eq numeral_2_eq_2 split: if_splits)
  have dp: "dirty_page 0 1 s_dirty" by (simp add: dirty_page_def s_dirty_def)
  note T1 = unPinPage_contract [of s_dirty 0 5 True, THEN conjunct1, rule_format, OF h(1)]
  note T2 = unPinPage_contract [of s_dirty 0 1 True, THEN conjunct2, THEN conjunct1,
      rule_format, of 1]
  note T3 = unPinPage_contract [of s_dirty 0 0 False, THEN conjunct2, THEN conjunct2,
      THEN conjunct1, rule_format, of 0]
  note T4 = unPinPage_contract [of s_dirty 0 0 False, THEN conjunct2, THEN conjunct2,
      THEN conjunct2, THEN conjunct1, rule_format, of 0]
  note T5 = unPinPage_contract [of s_dirty 0 0 False, THEN conjunct2, THEN conjunct2,
      THEN conjunct2, THEN conjunct2, THEN conjunct1, rule_format]
  have pre: "wf_bufs s_dirty \<and> coherent s_dirty \<and> dirty_page 0 1 s_dirty"
    using wf co dp by simp
  note T6 = unPinPage_contract [of s_dirty 0 0 False, THEN conjunct2, THEN conjunct2,
      THEN conjunct2, THEN conjunct2, THEN conjunct2, rule_format, OF pre]
  from T2 h have a2: "unPinPage 0 1 True s_dirty = (PAGENOTPINNED, s_dirty)" by simp
  from T3 h have a3: "fst (unPinPage 0 0 False s_dirty) = OK" by simp
  from T4 h have a4: "dirty (bufTable (snd (unPinPage 0 0 False s_dirty)) ! 0)" by simp
  have "map_option (\<lambda>(st, fr, s). (fr, valid (bufTable s ! 1))) (allocBuf s_dirty)
      = Some (Some 1, False)" by code_simp
  then obtain st fr s' where a: "allocBuf s_dirty = Some (st, fr, s')" and fr: "fr = Some 1"
    and nv: "\<not> valid (bufTable s' ! 1)"
    by (cases "allocBuf s_dirty") auto
  from T5 [of st fr s' 0 0] wf a h fr have a5: "dirty (bufTable s' ! 0)" by simp
  from T5 [of st fr s' 1 0] wf a h nv
  have a6: "dpages (disk s') (0, 1) = Some (bufPool s_dirty ! 1)" by simp
  have "map_option fst (readPage 0 2 s_dirty) = Some OK" by code_simp
  then obtain st1 fr1 s1 where r1: "readPage 0 2 s_dirty = Some (st1, fr1, s1)"
    by (cases "readPage 0 2 s_dirty") auto
  from T6 [THEN conjunct1, rule_format, OF r1]
  have b1: "dirty_page 0 1 s1 \<or> written_back 0 1 s_dirty s1" .
  have "map_option fst (allocPage 0 s_dirty) = Some OK" by code_simp
  then obtain st2 r2 s2 where r2: "allocPage 0 s_dirty = Some (st2, r2, s2)"
    by (cases "allocPage 0 s_dirty") auto
  from T6 [THEN conjunct2, THEN conjunct1, rule_format, OF r2]
  have b2: "dirty_page 0 1 s2 \<or> written_back 0 1 s_dirty s2" .
  from T6 [THEN conjunct2, THEN conjunct2, THEN conjunct1, rule_format,
      of 0 0 False "fst (unPinPage 0 0 False s_dirty)" "snd (unPinPage 0 0 False s_dirty)"]
  have b3: "dirty_page 0 1 (snd (unPinPage 0 0 False s_dirty))" by simp
  from T6 [THEN conjunct2, THEN conjunct2, THEN conjunct2, THEN conjunct1, rule_format,
      of 0 "fst (flushFile 0 s_dirty)" "snd (flushFile 0 s_dirty)"]
  have b4: "dirty_page 0 1 (snd (flushFile 0 s_dirty))
        \<or> written_back 0 1 s_dirty (snd (flushFile 0 s_dirty))" by simp
  from T6 [THEN conjunct2, THEN conjunct2, THEN conjunct2, THEN conjunct2, THEN conjunct1,
      rule_format, OF a]
  have b5: "dirty_page 0 1 s' \<or> written_back 0 1 s_dirty s'" .
  from T6 [THEN conjunct2, THEN conjunct2, THEN conjunct2, THEN conjunct2, THEN conjunct2,
      THEN conjunct1, rule_format,
      of 0 0 "fst (disposePage 0 0 s_dirty)" "snd (disposePage 0 0 s_dirty)"]
  have b6: "dirty_page 0 1 (snd (disposePage 0 0 s_dirty))" by simp
  note b7 = T6 [THEN conjunct2, THEN conjunct2, THEN conjunct2, THEN conjunct2, THEN conjunct2,
      THEN conjunct2, THEN conjunct1]
  note b8 = T6 [THEN conjunct2, THEN conjunct2, THEN conjunct2, THEN conjunct2, THEN conjunct2,
      THEN conjunct2, THEN conjunct2]
  from T1 a2 a3 a4 a fr a5 a6 wf co dp r1 b1 r2 b2 b3 b4 b5 b6 b7 b8 show ?thesis by blast
qed

section \<open>Scans without filter\<close>

text \<open>
  C10. \<open>startScan\<close> with a null filter returns \<open>OK\<close> whatever the other parameters
  are, stores the null filter and changes nothing else, so that \<open>matchRec\<close> accepts every
  record afterwards; \<open>BADSCANPARM\<close> is returned only for a non-null filter, and then
  exactly when one of the four checks of the parameters fails.
\<close>

theorem startScan_null_filter:
  "startScan off len ty None opr hs = (OK, hs\<lparr>filter_s := None\<rparr>)
   \<and> (\<forall>fd rec. matchRec fd (snd (startScan off len ty None opr hs)) rec)
   \<and> (fst (startScan off len ty flt opr hs) = BADSCANPARM \<longrightarrow> flt \<noteq> None)
   \<and> (\<forall>bytes. fst (startScan off len ty (Some bytes) opr hs) = BADSCANPARM \<longleftrightarrow>
          (off < 0 \<or> len < 1)
          \<or> (ty \<noteq> STRING \<and> ty \<noteq> INTEGER \<and> ty \<noteq> FLOAT)
          \<or> ((ty = INTEGER \<and> len \<noteq> sizeof_int) \<or> (ty = FLOAT \<and> len \<noteq> sizeof_float))
          \<or> (opr \<noteq> LT \<and> opr \<noteq> LTE \<and> opr \<noteq> EQ \<and> opr \<noteq> GTE \<and> opr \<noteq> GT \<and> opr \<noteq> NE))"
proof -
  have a: "startScan off len ty None opr hs = (OK, hs\<lparr>filter_s := None\<rparr>)"
    by (simp add: startScan_def)
  have b: "\<forall>fd rec. matchRec fd (snd (startScan off len ty None opr hs)) rec"
    by (simp add: a matchRec_def)
  have c: "fst (startScan off len ty flt opr hs) = BADSCANPARM \<longrightarrow> flt \<noteq> None"
    by (cases flt) (simp_all add: startScan_def)
  have d: "\<forall>bytes. fst (startScan off len ty (Some bytes) opr hs) = BADSCANPARM \<longleftrightarrow>
          (off < 0 \<or> len < 1)
          \<or> (ty \<noteq> STRING \<and> ty \<noteq> INTEGER \<and> ty \<noteq> FLOAT)
          \<or> ((ty = INTEGER \<and> len \<noteq> sizeof_int) \<or> (ty = FLOAT \<and> len \<noteq> sizeof_float))
          \<or> (opr \<noteq> LT \<and> opr \<noteq> LTE \<and> opr \<noteq> EQ \<and> opr \<noteq> GTE \<and> opr \<noteq> GT \<and> opr \<noteq> NE)"
    by (simp add: startScan_def)
  from a b c d show ?thesis by blast
qed

theorem startScan_null_filter_witness:
  "fst (startScan (- 1) 0 (OtherDatatype 7) None (OtherOperator 9) scan_open) = OK
   \<and> matchRec no_fdiff (snd (startScan (- 1) 0 (OtherDatatype 7) None (OtherOperator 9) scan_open)) ''abc''
   \<and> fst (startScan (- 1) 0 (OtherDatatype 7) (Some ''x'') (OtherOperator 9) scan_open) = BADSCANPARM
   \<and> Some ''x'' \<noteq> (None :: string option)"
proof -
  note T = startScan_null_filter [of "- 1" 0 "OtherDatatype 7" "OtherOperator 9" scan_open "Some ''x''"]
  from T have a: "fst (startScan (- 1) 0 (OtherDatatype 7) None (OtherOperator 9) scan_open) = OK"
    by simp
  from T have b: "matchRec no_fdiff
      (snd (startScan (- 1) 0 (OtherDatatype 7) None (OtherOperator 9) scan_open)) ''abc''"
    by blast
  from T [THEN conjunct2, THEN conjunct2, THEN conjunct2, rule_format, of "''x''"]
  have c: "fst (startScan (- 1) 0 (OtherDatatype 7) (Some ''x'') (OtherOperator 9) scan_open)
      = BADSCANPARM" by simp
  from T [THEN conjunct2, THEN conjunct2, THEN conjunct1] c
  have d: "Some ''x'' \<noteq> (None :: string option)" by blast
  from a b c d show ?thesis by blast
qed

section \<open>Scans that start without cursor page\<close>

lemma scan_ended_reached:
  "fst (endScan scan_open bm_open) = OK \<and> curPage scan_ended = None
   \<and> curPageNo scan_ended = 0 \<and> curRec scan_ended = NULLRID \<and> filter_s scan_ended = None"
  by code_simp

lemma scan_open_complete:
  "map_option fst (scanCalls no_fdiff 3 scan_open bm_open)
     = Some [(OK, Some (RID 2 0)), (OK, Some (RID 2 1)), (FILEEOF, None)]"
  by code_simp

text \<open>
  C6. The claim: with a null filter, repeated calls of \<open>scanNext\<close> return the RID of every
  record once, beginning with the first record of the first data page. When the scan has
  no cursor page (after \<open>endScan\<close>), \<open>scanNext\<close> pins the first data page, sets \<open>curRec\<close>
  to its first record and then enters the loop, which begins by asking for the record
  after \<open>curRec\<close>: the first record of the file is never returned. The file of
  \<open>bm_ended\<close> has the records (2, 0) and (2, 1); the scan \<open>scan_ended\<close> returns (2, 1)
  and then \<open>FILEEOF\<close>. (A scan used as the constructor leaves it, the first data page
  pinned and \<open>curRec = NULLRID\<close>, returns both: \<open>scan_open_complete\<close>.)
\<close>

theorem scanNext_skips_first_record:
  "firstRecord (bufPool bm_ended ! 1) = (OK, Some (RID 2 0))
   \<and> map_option fst (scanCalls no_fdiff 3 scan_ended bm_ended)
       = Some [(OK, Some (RID 2 1)), (FILEEOF, None), (FILEEOF, None)]"
  by code_simp

section \<open>Insertion\<close>

lemma deleteRecord_sets_hdrDirtyFlag:
  "deleteRecord hs bm = Some (st, hs', bm') \<Longrightarrow> hdrDirtyFlag hs' \<and> curDirtyFlag hs'"
  by (auto simp: deleteRecord_def Let_def split: option.splits prod.splits)

text \<open>
  C7. The claim: an \<open>insertRecord\<close> that returns \<open>OK\<close> increments \<open>recCnt\<close>, sets
  \<open>hdrDirtyFlag\<close>, sets \<open>curRec\<close>, marks the cursor page dirty and outputs the RID. The
  code never assigns \<open>hdrDirtyFlag\<close> in \<open>insertRecord\<close> (\<open>deleteRecord\<close> does): on the
  open file \<open>insert_open\<close> the insertion of a record returns \<open>OK\<close> with the RID (2, 2),
  \<open>recCnt\<close> goes from 2 to 3, \<open>curRec\<close> and \<open>curDirtyFlag\<close> are set, and \<open>hdrDirtyFlag\<close>
  is still false.
\<close>

theorem insertRecord_leaves_hdrDirtyFlag:
  "map_option (\<lambda>(st, rid, hs, bm). (st, rid, curRec hs, curDirtyFlag hs,
                  recCnt (hdrOf (bufPool bm ! headerPage hs)), hdrDirtyFlag hs))
     (insertRecord ''c'' insert_open bm_open)
   = Some (OK, Some (RID 2 2), RID 2 2, True, 3, False)
   \<and> recCnt (hdrOf (bufPool bm_open ! headerPage insert_open)) = 2"
  by code_simp

lemma insertRecord_keeps_cursor:
  assumes "insertRecord rec hs bm = Some (st, rid, hs', bm')" "curPage hs \<noteq> None"
  shows "curPage hs' \<noteq> None"
  using assms
  by (auto simp: insertRecord_def Let_def
      split: if_splits option.splits prod.splits sum.splits)

lemma HeapFile_ctor_OK_cursor:
  assumes "HeapFile_ctor raw f pageNum bm = Some (OK, hf, bm')"
  shows "curPage hf \<noteq> None"
  using assms
  by (auto simp: HeapFile_ctor_def Let_def split: if_splits option.splits prod.splits)

text \<open>
  C8. The claim: without cursor page the unpin of the nominal cursor is a no-op and the
  absence of a cursor never makes \<open>insertRecord\<close> fail. The code calls \<open>unPinPage\<close> on
  \<open>curPageNo\<close> although no page is held and returns its status when it is not \<open>OK\<close>.
  An \<open>InsertFileScan\<close> has no cursor page when its constructor failed at the read of the
  first data page: in \<open>run_ctor_fail\<close> both frames are pinned at that moment, the
  constructor returns \<open>BUFFEREXCEEDED\<close> and \<open>curPage\<close> and \<open>curPageNo\<close> are as the storage
  of the object had them, null and 0. After the other client has released its frame,
  \<open>insertRecord\<close> of a one-byte record returns \<open>HASHNOTFOUND\<close>, the status of the unpin
  of page 0, which is not resident; with \<open>headerPage.lastPage\<close> read and made the cursor,
  as the claim has it, the same insertion returns \<open>OK\<close> with the RID (2, 2). (A
  constructor that returns \<open>OK\<close> sets the cursor and \<open>insertRecord\<close> keeps it:
  \<open>HeapFile_ctor_OK_cursor\<close>, \<open>insertRecord_keeps_cursor\<close>.)
\<close>

theorem insertRecord_without_cursor_fails:
  "map_option (\<lambda>(cst, hf, bm). (cst, curPage hf, curPageNo hf, headerPage hf, pinCnt (bufTable bm ! 0)))
      run_ctor_fail = Some (BUFFEREXCEEDED, None, 0, 1, 0)
   \<and> length ''c'' \<le> PAGESIZE - DPFIXED
   \<and> insert_after_ctor_fail = Some (HASHNOTFOUND, None)
   \<and> insert_with_cursor_on_lastPage = Some (OK, Some (RID 2 2))"
  by code_simp

section \<open>Logical page contents are stable\<close>

lemma allocBuf_post_pool:
  assumes post: "allocBuf_post s (OK, Some k, s1)" and inv: "pool_inv s"
  shows "pool_inv s1" and "view s1 = view s"
proof -
  from inv have wf: "wf_bufs s" and co: "coherent s" and pn: "pins_nonneg s"
    and cl: "clean_pool s" by (simp_all add: pool_inv_def)
  from post have klt: "k < numBufs s"
    and oth: "\<And>i. i < numBufs s \<Longrightarrow> i \<noteq> k \<Longrightarrow> eq_upto_refbit (bufTable s ! i) (bufTable s1 ! i)"
    and clr: "bufTable s1 ! k = Clear (bufTable s ! k)"
    and vic: "victim_post s k s1"
    and same: "numBufs s1 = numBufs s" "bufPool s1 = bufPool s"
    by (auto elim!: allocBuf_post_OK)
  note c1 = allocBuf_post_coherent [OF post wf co]
  define b where "b = bufTable s ! k"
  text \<open>the page on disk changes at the key of a dirty victim only, to the frame content\<close>
  have disk_other: "dpages (disk s1) key = dpages (disk s) key"
    if "\<not> (valid b \<and> file b = Some (fst key) \<and> pageNo b = snd key)" for key
    using vic that by (cases key) (auto simp: victim_post_def Let_def b_def split: if_splits)
  have vkey: "hashTable s (f, pageNo b) = Some k" if "valid b" "file b = Some f" for f
    using coherentD1 [OF co wf klt] that by (auto simp: b_def)
  have disk_vic: "dpages (disk s1) (f, pageNo b) = Some (bufPool s ! k)"
    if "valid b" "file b = Some f" for f
  proof (cases "dirty b")
    case True
    with vic that show ?thesis by (auto simp: victim_post_def Let_def b_def)
  next
    case False
    from vic that have "pinCnt b \<le> 0" by (auto simp: victim_post_def Let_def b_def)
    with cl klt that False have "dpages (disk s) (f, pageNo b) = Some (bufPool s ! k)"
      by (auto simp: clean_pool_def b_def)
    moreover from vic that False have "disk s1 = disk s"
      by (auto simp: victim_post_def Let_def b_def)
    ultimately show ?thesis by simp
  qed
  have hash1: "hashTable s1 key = (if valid b \<and> file b = Some (fst key) \<and> pageNo b = snd key
                                  then None else hashTable s key)" for key
    using vic by (cases key) (auto simp: victim_post_def Let_def b_def split: if_splits)
  show v: "view s1 = view s"
  proof
    fix key :: "File \<times> int"
    show "view s1 key = view s key"
    proof (cases "valid b \<and> file b = Some (fst key) \<and> pageNo b = snd key")
      case True
      then have "key = (fst key, pageNo b)" by (cases key) simp
      with True vkey [of "fst key"] disk_vic [of "fst key"] hash1 [of key]
      show ?thesis by (simp add: view_def)
    next
      case False
      with hash1 [of key] disk_other [of key] same show ?thesis
        by (simp add: view_def split: option.splits)
    qed
  qed
  have pn1: "pins_nonneg s1"
    unfolding pins_nonneg_def
  proof (intro allI impI)
    fix i assume "i < numBufs s1"
    with same have i: "i < numBufs s" by simp
    show "0 \<le> pinCnt (bufTable s1 ! i)"
    proof (cases "i = k")
      case True
      with clr show ?thesis by (simp add: Clear_def)
    next
      case False
      from eq_upto_refbit_fields(4) [OF oth [OF i False]] pn i show ?thesis
        by (auto simp: pins_nonneg_def)
    qed
  qed
  have cl1: "clean_pool s1"
    unfolding clean_pool_def
  proof (intro allI impI)
    fix i f
    assume "i < numBufs s1"
      and a: "valid (bufTable s1 ! i) \<and> \<not> dirty (bufTable s1 ! i)
        \<and> pinCnt (bufTable s1 ! i) \<le> 0 \<and> file (bufTable s1 ! i) = Some f"
    with same have i: "i < numBufs s" by simp
    from a clr have ne: "i \<noteq> k" by (auto simp: Clear_def)
    note e = eq_upto_refbit_fields [OF oth [OF i ne]]
    from a e have a': "valid (bufTable s ! i)" "\<not> dirty (bufTable s ! i)"
      "pinCnt (bufTable s ! i) \<le> 0" "file (bufTable s ! i) = Some f" by simp_all
    with cl i have d: "dpages (disk s) (f, pageNo (bufTable s ! i)) = Some (bufPool s ! i)"
      by (auto simp: clean_pool_def)
    have "\<not> (valid b \<and> file b = Some f \<and> pageNo b = pageNo (bufTable s ! i))"
    proof
      assume x: "valid b \<and> file b = Some f \<and> pageNo b = pageNo (bufTable s ! i)"
      with vkey [of f] have "hashTable s (f, pageNo (bufTable s ! i)) = Some k" by simp
      moreover from coherentD1 [OF co wf i a'(1)] a'(4)
      have "hashTable s (f, pageNo (bufTable s ! i)) = Some i" by simp
      ultimately show False using ne by simp
    qed
    with disk_other [of "(f, pageNo (bufTable s ! i))"] d e same
    show "dpages (disk s1) (f, pageNo (bufTable s1 ! i)) = Some (bufPool s1 ! i)" by simp
  qed
  from c1 pn1 cl1 show "pool_inv s1" by (simp add: pool_inv_def)
qed

lemma readPage_pool:
  assumes r: "readPage f p s = Some (OK, fr, s')" and inv: "pool_inv s"
  shows "\<exists>k. fr = Some k \<and> pool_inv s' \<and> view s' = view s
             \<and> cursor_inv f p k False s'"
proof -
  from inv have wf: "wf_bufs s" and co: "coherent s" and pn: "pins_nonneg s"
    and cl: "clean_pool s" by (simp_all add: pool_inv_def)
  from wf have len: "length (bufTable s) = numBufs s" "length (bufPool s) = numBufs s"
    by (simp_all add: wf_bufs_def)
  from readPage_OK_cases [OF r] obtain k where fr: "fr = Some k"
    and c: "readPage_hit f p s k s' \<or> readPage_miss f p s k s'" by blast
  note i' = readPage_inv [OF r wf co]
  from c have "pool_inv s' \<and> view s' = view s \<and> cursor_inv f p k False s'"
  proof
    assume "readPage_hit f p s k s'"
    then have hk: "hashTable s (f, p) = Some k"
      and s': "s' = s\<lparr>bufTable := (bufTable s)
               [k := (bufTable s ! k)\<lparr>refbit := True, pinCnt := pinCnt (bufTable s ! k) + 1\<rparr>]\<rparr>"
      by (simp_all add: readPage_hit_def)
    note d = coherentD2 [OF co hk]
    from pn d(1) have p0: "0 \<le> pinCnt (bufTable s ! k)" by (simp add: pins_nonneg_def)
    have v: "view s' = view s" by (rule ext) (simp add: view_def s' split: option.splits)
    have pn': "pins_nonneg s'"
      using pn p0 len by (auto simp: pins_nonneg_def s' nth_list_update_if)
    have cl': "clean_pool s'"
      using cl p0 len by (auto simp: clean_pool_def s' nth_list_update_if)
    have cu: "cursor_inv f p k False s'"
      using hk d p0 len cl by (auto simp: cursor_inv_def s' clean_pool_def)
    from i' pn' cl' v cu show ?thesis by (simp add: pool_inv_def)
  next
    assume "readPage_miss f p s k s'"
    then obtain s1 content where hn: "hashTable s (f, p) = None"
      and a: "allocBuf s = Some (OK, Some k, s1)"
      and dc: "dpages (disk s1) (f, p) = Some content"
      and h1: "hashTable s1 (f, p) = None"
      and s': "numBufs s' = numBufs s1"
        "disk s' = (disk s1)\<lparr>ioLog := ioLog (disk s1) @ [RD f p]\<rparr>"
        "bufPool s' = (bufPool s1)[k := content]"
        "hashTable s' = (hashTable s1)((f, p) \<mapsto> k)"
        "bufTable s' = (bufTable s1)
                 [k := \<lparr>file = Some f, pageNo = p, frameNo = k, pinCnt = 1,
                        dirty = False, valid = True, refbit = True\<rparr>]"
      by (auto simp: readPage_miss_def)
    from allocBuf_post_holds [OF a wf] have post: "allocBuf_post s (OK, Some k, s1)" .
    note p1 = allocBuf_post_pool [OF post inv]
    from p1(1) have wf1: "wf_bufs s1" and co1: "coherent s1" and pn1: "pins_nonneg s1"
      and cl1: "clean_pool s1" by (simp_all add: pool_inv_def)
    from wf1 have len1: "length (bufTable s1) = numBufs s1" "length (bufPool s1) = numBufs s1"
      by (simp_all add: wf_bufs_def)
    from post have klt: "k < numBufs s1" by (auto elim!: allocBuf_post_OK)
    from allocBuf_post_coherent(4) [OF post wf co] have nok: "\<And>key. hashTable s1 key \<noteq> Some k"
      by blast
    have v: "view s' = view s1"
    proof
      fix key :: "File \<times> int"
      show "view s' key = view s1 key"
      proof (cases "key = (f, p)")
        case True
        with h1 dc klt len1 show ?thesis by (simp add: view_def s')
      next
        case False
        with nok [of key] show ?thesis
          by (cases "hashTable s1 key") (auto simp: view_def s')
      qed
    qed
    have pn': "pins_nonneg s'"
      using pn1 len1 by (auto simp: pins_nonneg_def s' nth_list_update_if)
    have cl': "clean_pool s'"
      using cl1 len1 by (auto simp: clean_pool_def s' nth_list_update_if)
    have cu: "cursor_inv f p k False s'"
      using klt len1 dc by (simp add: cursor_inv_def s')
    from i' pn' cl' v p1(2) cu show ?thesis by (simp add: pool_inv_def)
  qed
  with fr show ?thesis by blast
qed

lemma unPinPage_cursor:
  assumes inv: "pool_inv bm" and cu: "cursor_inv f pno cp dflag bm"
    and u: "unPinPage f pno dflag bm = (st, bm1)"
  shows "st = OK" "pool_inv bm1" "view bm1 = view bm"
proof -
  from inv have wf: "wf_bufs bm" and co: "coherent bm" and pn: "pins_nonneg bm"
    and cl: "clean_pool bm" by (simp_all add: pool_inv_def)
  from wf have len: "length (bufTable bm) = numBufs bm" by (simp add: wf_bufs_def)
  from cu have hk: "hashTable bm (f, pno) = Some cp" and pin: "0 < pinCnt (bufTable bm ! cp)"
    and cln: "\<not> dirty (bufTable bm ! cp) \<and> \<not> dflag \<and> pinCnt (bufTable bm ! cp) \<le> 1 \<longrightarrow>
          dpages (disk bm) (f, pno) = Some (bufPool bm ! cp)"
    by (simp_all add: cursor_inv_def)
  note d = coherentD2 [OF co hk]
  from unPinPage_cases [OF u] hk pin
  have st: "st = OK" and s': "bm1 = bm\<lparr>bufTable := (bufTable bm)
                [cp := (bufTable bm ! cp)\<lparr>dirty := (dflag \<or> dirty (bufTable bm ! cp)),
                                        pinCnt := pinCnt (bufTable bm ! cp) - 1\<rparr>]\<rparr>"
    by auto
  show "st = OK" by (rule st)
  note i' = unPinPage_inv [OF u wf co]
  show v: "view bm1 = view bm" by (rule ext) (simp add: view_def s' split: option.splits)
  have pn': "pins_nonneg bm1"
    using pn pin len by (auto simp: pins_nonneg_def s' nth_list_update_if)
  have cl': "clean_pool bm1"
    using cl cln d len by (auto simp: clean_pool_def s' nth_list_update_if)
  from i' pn' cl' show "pool_inv bm1" by (simp add: pool_inv_def)
qed

section \<open>One turn of the scan loop\<close>

lemma nextRecord_OK: "nextRecord pg r = (st, nr) \<Longrightarrow> (st = OK) = (nr \<noteq> None)"
  by (auto simp: nextRecord_def split: option.splits)

lemma firstRecord_OK: "firstRecord pg = (st, nr) \<Longrightarrow> (st = OK) = (nr \<noteq> None)"
  by (auto simp: firstRecord_def split: option.splits)

lemma scan_invI:
  "pool_inv bm \<Longrightarrow> curPage hs = Some k \<Longrightarrow>
   cursor_inv (filePtr hs) (curPageNo hs) k (curDirtyFlag hs) bm \<Longrightarrow> scan_inv hs bm"
  by (auto simp: scan_inv_def)

lemma scan_inv_page:
  assumes "scan_inv hs bm" "curPage hs = Some cp"
  shows "view bm (filePtr hs, curPageNo hs) = Some (bufPool bm ! cp)"
  using assms by (auto simp: scan_inv_def cursor_inv_def view_def)

lemma cursor_inv_page:
  assumes "cursor_inv f p k d bm"
  shows "view bm (f, p) = Some (bufPool bm ! k)"
  using assms by (auto simp: cursor_inv_def view_def)

lemma same_scan_refl [simp]: "same_scan hs hs"
  by (simp add: same_scan_def)

lemma same_scan_trans: "same_scan a b \<Longrightarrow> same_scan b c \<Longrightarrow> same_scan a c"
  by (simp add: same_scan_def)

lemma same_scan_sym: "same_scan a b \<Longrightarrow> same_scan b a"
  by (simp add: same_scan_def)

text \<open>
  The cursor moves to another page: the unpin of the cursor page succeeds, and a
  \<open>readPage\<close> that returns \<open>OK\<close> gives a cursor in order on the same logical contents.
\<close>

lemma move_cursor:
  assumes inv: "scan_inv hs bm"
    and u: "unPinPage (filePtr hs) (curPageNo hs) (curDirtyFlag hs) bm = (ust, bm1)"
  shows "ust = OK"
    and "readPage (filePtr hs) p bm1 = Some (OK, pgo, bm2) \<Longrightarrow>
         \<exists>k. pgo = Some k \<and> pool_inv bm2 \<and> view bm2 = view bm
              \<and> cursor_inv (filePtr hs) p k False bm2"
proof -
  from inv obtain cp where pi: "pool_inv bm"
    and cu: "cursor_inv (filePtr hs) (curPageNo hs) cp (curDirtyFlag hs) bm"
    by (auto simp: scan_inv_def)
  note m = unPinPage_cursor [OF pi cu u]
  show "ust = OK" by (rule m(1))
  assume "readPage (filePtr hs) p bm1 = Some (OK, pgo, bm2)"
  from readPage_pool [OF this m(2)] m(3)
  show "\<exists>k. pgo = Some k \<and> pool_inv bm2 \<and> view bm2 = view bm
              \<and> cursor_inv (filePtr hs) p k False bm2" by auto
qed

lemma scanNext_step_sim:
  assumes inv: "scan_inv hs bm" and st: "scanNext_step hs bm = Some a"
  shows "(\<exists>s r h m. a = Inl (s, r, h, m) \<and> s \<noteq> OK)
     \<or> (\<exists>hs1 bm1. a = Inr (fst (scan_target (view bm) (filePtr hs) (curPageNo hs) (curRec hs)),
                            hs1, bm1)
           \<and> scan_inv hs1 bm1 \<and> view bm1 = view bm \<and> same_scan hs hs1
           \<and> curPageNo hs1 = fst (snd (scan_target (view bm) (filePtr hs) (curPageNo hs) (curRec hs)))
           \<and> curRec hs1 = snd (snd (scan_target (view bm) (filePtr hs) (curPageNo hs) (curRec hs))))"
proof -
  define f where "f = filePtr hs"
  define pno where "pno = curPageNo hs"
  from inv obtain cp where cp: "curPage hs = Some cp" by (auto simp: scan_inv_def)
  define pg where "pg = bufPool bm ! cp"
  from scan_inv_page [OF inv cp] have V: "view bm (f, pno) = Some pg"
    by (simp add: f_def pno_def pg_def)
  obtain nst nr where n: "nextRecord pg (curRec hs) = (nst, nr)" by fastforce
  note nok = nextRecord_OK [OF n]
  define T where "T = scan_target (view bm) f pno (curRec hs)"
  show ?thesis
  proof (cases "nst = OK")
    case True
    with nok obtain r where r: "nr = Some r" by auto
    from st cp n True r have a: "a = Inr (False, hs\<lparr>curRec := r\<rparr>, bm)"
      by (simp add: scanNext_step_def pg_def)
    have t: "T = (False, pno, r)"
      using V n True r by (simp add: T_def scan_target_def)
    have "scan_inv (hs\<lparr>curRec := r\<rparr>) bm" using inv by (simp add: scan_inv_def)
    moreover have "same_scan hs (hs\<lparr>curRec := r\<rparr>)" by (simp add: same_scan_def)
    ultimately show ?thesis using a t
      by (auto simp: T_def f_def pno_def)
  next
    case False
    note nf = False
    define nx where "nx = nextPageOf pg"
    have g: "getNextPage pg = (OK, nx)" by (simp add: getNextPage_def nx_def)
    show ?thesis
    proof (cases "nx = - 1")
      case True
      from st cp n nf g True have "a = Inl (FILEEOF, None, hs, bm)"
        by (simp add: scanNext_step_def pg_def)
      then show ?thesis by simp
    next
      case False
      note nxf = False
      obtain ust bm1 where u: "unPinPage (filePtr hs) (curPageNo hs) (curDirtyFlag hs) bm = (ust, bm1)"
        by fastforce
      note mv = move_cursor [OF inv u]
      define hs1 where "hs1 = hs\<lparr>curPageNo := nx, curDirtyFlag := False\<rparr>"
      note base = st cp n nf g nxf u mv(1)
      obtain rst pgo bm2 where rp: "readPage (filePtr hs) nx bm1 = Some (rst, pgo, bm2)"
      proof (cases "readPage (filePtr hs) nx bm1")
        case None
        with base have False by (simp add: scanNext_step_def pg_def)
        then show ?thesis ..
      next
        case (Some x)
        then show ?thesis by (cases x) (auto intro: that)
      qed
      show ?thesis
      proof (cases "rst = OK")
        case False
        with base rp have "\<exists>h. a = Inl (rst, None, h, bm2)"
          by (auto simp: scanNext_step_def pg_def Let_def)
        with False show ?thesis by blast
      next
        case True
        from mv(2) [OF rp [unfolded True]] obtain k where k: "pgo = Some k"
          and pi2: "pool_inv bm2" and v2: "view bm2 = view bm"
          and cu2: "cursor_inv (filePtr hs) nx k False bm2" by blast
        define hs2 where "hs2 = hs1\<lparr>curPage := Some k\<rparr>"
        define pg2 where "pg2 = bufPool bm2 ! k"
        from cursor_inv_page [OF cu2] v2 have V2: "view bm (f, nx) = Some pg2"
          by (simp add: f_def pg2_def)
        have inv2: "scan_inv hs2 bm2"
          by (rule scan_invI [OF pi2, of _ k]) (simp_all add: hs2_def hs1_def cu2)
        have ss: "same_scan hs hs2" by (simp add: same_scan_def hs2_def hs1_def)
        obtain fst' fro where fr: "firstRecord pg2 = (fst', fro)" by fastforce
        note fok = firstRecord_OK [OF fr]
        from base rp True k fr
        have st2: "(if fst' \<noteq> OK then Some (Inr (True, hs2, bm2))
                    else (case fro of None \<Rightarrow> None
                          | Some r \<Rightarrow> Some (Inr (False, hs2\<lparr>curRec := r\<rparr>, bm2)))) = Some a"
          by (auto simp: scanNext_step_def pg_def hs1_def hs2_def pg2_def Let_def
              split: if_splits option.splits)
        show ?thesis
        proof (cases "fst' = OK")
          case False
          with st2 have a: "a = Inr (True, hs2, bm2)" by simp
          have t: "T = (True, nx, curRec hs)"
            using V V2 n nf fr False by (simp add: T_def scan_target_def nx_def Let_def)
          have "curPageNo hs2 = nx" "curRec hs2 = curRec hs" by (simp_all add: hs2_def hs1_def)
          with a t inv2 v2 ss show ?thesis by (auto simp: T_def f_def pno_def)
        next
          case True
          with fok obtain r where r: "fro = Some r" by auto
          with st2 True have a: "a = Inr (False, hs2\<lparr>curRec := r\<rparr>, bm2)" by simp
          have t: "T = (False, nx, r)"
            using V V2 n nf fr True r by (simp add: T_def scan_target_def nx_def Let_def)
          have "scan_inv (hs2\<lparr>curRec := r\<rparr>) bm2" using inv2 by (simp add: scan_inv_def)
          moreover have "same_scan hs (hs2\<lparr>curRec := r\<rparr>)"
            using ss by (simp add: same_scan_def)
          moreover have "curPageNo (hs2\<lparr>curRec := r\<rparr>) = nx" by (simp add: hs2_def hs1_def)
          ultimately show ?thesis using a t v2 by (auto simp: T_def f_def pno_def)
        qed
      qed
    qed
  qed
qed

lemma getRecord_OK:
  assumes "getRecord pg r = (st, ro)"
  shows "(st = OK) = (ro \<noteq> None)"
proof (cases "0 \<le> rid_slotNo r \<and> nat (rid_slotNo r) < length (slotsOf pg)")
  case True
  show ?thesis
  proof (cases "slotsOf pg ! nat (rid_slotNo r)")
    case None
    with True assms show ?thesis by (simp add: getRecord_def)
  next
    case (Some x)
    with True have "getRecord pg r = (OK, Some x)" by (simp add: getRecord_def)
    with assms show ?thesis by auto
  qed
next
  case False
  with assms show ?thesis by (auto simp: getRecord_def)
qed

lemma matchRec_same_scan: "same_scan a b \<Longrightarrow> matchRec fd a rec = matchRec fd b rec"
  unfolding matchRec_def same_scan_def by (elim conjE) (simp only:)

text \<open>
  The loop body of \<open>scanNext\<close> with any continuation \<open>L\<close> in place of the next turn:
  when it yields \<open>OK\<close>, the first half reached the target given by the logical
  contents, and either the turn ends with the record at the target, or \<open>L\<close> yields the
  result from the target.
\<close>

lemma scanNext_body_cases:
  assumes inv: "scan_inv hs bm"
    and body: "(case scanNext_step hs bm of
        None \<Rightarrow> None
      | Some (Inl r) \<Rightarrow> Some r
      | Some (Inr (again, hs1, bm1)) \<Rightarrow>
          if again then L fdiff hs1 bm1
          else
            (case curPage hs1 of
               None \<Rightarrow> None
             | Some cp \<Rightarrow>
                 let (status, ro) = getRecord (bufPool bm1 ! cp) (curRec hs1) in
                 if status \<noteq> OK then Some (status, None, hs1, bm1)
                 else
                   (case ro of
                      None \<Rightarrow> None
                    | Some rec \<Rightarrow>
                        if matchRec fdiff hs1 rec
                        then Some (OK, Some (curRec hs1), hs1, bm1)
                        else L fdiff hs1 bm1))) = Some y"
    and ok: "fst y = OK"
  shows "\<exists>hs1 bm1. scan_inv hs1 bm1 \<and> view bm1 = view bm \<and> same_scan hs hs1
      \<and> (let T = scan_target (view bm) (filePtr hs) (curPageNo hs) (curRec hs) in
           curPageNo hs1 = fst (snd T) \<and> curRec hs1 = snd (snd T)
           \<and> (if fst T then L fdiff hs1 bm1 = Some y
               else (\<exists>rec. getRecord (the (view bm (filePtr hs, fst (snd T)))) (snd (snd T))
                              = (OK, Some rec)
                      \<and> (if matchRec fdiff hs rec
                          then y = (OK, Some (snd (snd T)), hs1, bm1)
                          else L fdiff hs1 bm1 = Some y))))"
proof -
  define T where "T = scan_target (view bm) (filePtr hs) (curPageNo hs) (curRec hs)"
  obtain a where a: "scanNext_step hs bm = Some a"
    using body by (cases "scanNext_step hs bm") auto
  from scanNext_step_sim [OF inv a]
  consider (err) s r h m where "a = Inl (s, r, h, m)" "s \<noteq> OK"
    | (go) hs1 bm1 where "a = Inr (fst T, hs1, bm1)" "scan_inv hs1 bm1" "view bm1 = view bm"
        "same_scan hs hs1" "curPageNo hs1 = fst (snd T)" "curRec hs1 = snd (snd T)"
    unfolding T_def by blast
  then show ?thesis
  proof cases
    case err
    with body a ok have False by auto
    then show ?thesis ..
  next
    case go
    from go(2) obtain cp where cp: "curPage hs1 = Some cp" by (auto simp: scan_inv_def)
    from scan_inv_page [OF go(2) cp] go
    have pg: "bufPool bm1 ! cp = the (view bm (filePtr hs, fst (snd T)))"
      by (simp add: same_scan_def)
    show ?thesis
    proof (cases "fst T")
      case True
      with body a go(1) have "L fdiff hs1 bm1 = Some y" by simp
      with go True show ?thesis
        unfolding T_def [symmetric] Let_def
        by (intro exI [of _ hs1] exI [of _ bm1]) auto
    next
      case False
      obtain st ro where g: "getRecord (bufPool bm1 ! cp) (curRec hs1) = (st, ro)" by fastforce
      note gok = getRecord_OK [OF g]
      from body a go(1) False cp g
      have b2: "(if st \<noteq> OK then Some (st, None, hs1, bm1)
                 else (case ro of None \<Rightarrow> None
                       | Some rec \<Rightarrow>
                        if matchRec fdiff hs1 rec
                        then Some (OK, Some (curRec hs1), hs1, bm1)
                        else L fdiff hs1 bm1)) = Some y"
        by simp
      have stok: "st = OK"
      proof (rule ccontr)
        assume "st \<noteq> OK"
        with b2 ok show False by auto
      qed
      with gok obtain rec where rec: "ro = Some rec" by auto
      from b2 stok rec
      have b3: "(if matchRec fdiff hs1 rec then Some (OK, Some (curRec hs1), hs1, bm1)
                 else L fdiff hs1 bm1) = Some y" by simp
      have m: "matchRec fdiff hs1 rec = matchRec fdiff hs rec"
        using matchRec_same_scan [OF go(4)] by simp
      from g stok rec pg go(6)
      have g': "getRecord (the (view bm (filePtr hs, fst (snd T)))) (snd (snd T)) = (OK, Some rec)"
        by simp
      have "if matchRec fdiff hs rec then y = (OK, Some (snd (snd T)), hs1, bm1)
            else L fdiff hs1 bm1 = Some y"
        using b3 m go(6) by (auto split: if_splits)
      with g' go False show ?thesis
        unfolding T_def [symmetric] Let_def
        by (intro exI [of _ hs1] exI [of _ bm1]) auto
    qed
  qed
qed
section \<open>The scan loop on logical contents\<close>

lemma scanNext_loop_inv:
  "scanNext_loop fd hs bm = Some y \<Longrightarrow>
   fst y = OK \<longrightarrow> scan_inv hs bm \<longrightarrow>
   scan_inv (fst (snd (snd y))) (snd (snd (snd y)))
   \<and> view (snd (snd (snd y))) = view bm \<and> same_scan hs (fst (snd (snd y)))"
proof (induct fd hs bm y rule: scanNext_loop.raw_induct [rotated 1, consumes 1, case_names step])
  case (step loop fd hs bm y)
  show ?case
  proof (intro impI)
    assume ok: "fst y = OK" and inv: "scan_inv hs bm"
    define T where "T = scan_target (view bm) (filePtr hs) (curPageNo hs) (curRec hs)"
    from scanNext_body_cases [where L = loop and fdiff = fd, OF inv step(2) ok]
    obtain hs1 bm1 where i1: "scan_inv hs1 bm1" and v1: "view bm1 = view bm"
      and s1: "same_scan hs hs1"
      and c: "if fst T then loop fd hs1 bm1 = Some y
               else (\<exists>rec. getRecord (the (view bm (filePtr hs, fst (snd T)))) (snd (snd T))
                              = (OK, Some rec)
                      \<and> (if matchRec fd hs rec
                          then y = (OK, Some (snd (snd T)), hs1, bm1)
                          else loop fd hs1 bm1 = Some y))"
      unfolding T_def Let_def by blast
    from c consider (rec) "loop fd hs1 bm1 = Some y" | (ret) r where "y = (OK, r, hs1, bm1)"
      by (auto split: if_splits)
    then show "scan_inv (fst (snd (snd y))) (snd (snd (snd y)))
       \<and> view (snd (snd (snd y))) = view bm \<and> same_scan hs (fst (snd (snd y)))"
    proof cases
      case rec
      from step(1) [OF rec] ok i1
      have "scan_inv (fst (snd (snd y))) (snd (snd (snd y)))
         \<and> view (snd (snd (snd y))) = view bm1 \<and> same_scan hs1 (fst (snd (snd y)))" by blast
      with v1 s1 same_scan_trans show ?thesis by auto
    next
      case ret
      with i1 v1 s1 show ?thesis by simp
    qed
  qed
qed

lemma scanNext_loop_determined:
  "scanNext_loop fd hs bm = Some y \<Longrightarrow>
   fst y = OK \<longrightarrow> scan_inv hs bm \<longrightarrow>
   (\<forall>hsB bmB yB. scanNext_loop fd hsB bmB = Some yB \<longrightarrow> fst yB = OK \<longrightarrow>
      scan_inv hsB bmB \<longrightarrow> view bmB = view bm \<longrightarrow> same_scan hs hsB \<longrightarrow>
      curPageNo hsB = curPageNo hs \<longrightarrow> curRec hsB = curRec hs \<longrightarrow>
      fst (snd yB) = fst (snd y))"
proof (induct fd hs bm y rule: scanNext_loop.raw_induct [rotated 1, consumes 1, case_names step])
  case (step loop fd hs bm y)
  show ?case
  proof (intro impI allI)
    fix hsB bmB yB
    assume ok: "fst y = OK" and inv: "scan_inv hs bm"
      and runB: "scanNext_loop fd hsB bmB = Some yB" and okB: "fst yB = OK"
      and invB: "scan_inv hsB bmB" and vB: "view bmB = view bm" and ss: "same_scan hs hsB"
      and pB: "curPageNo hsB = curPageNo hs" and rB: "curRec hsB = curRec hs"
    define T where "T = scan_target (view bm) (filePtr hs) (curPageNo hs) (curRec hs)"
    from ss have fB: "filePtr hsB = filePtr hs" by (simp add: same_scan_def)
    have TB: "scan_target (view bmB) (filePtr hsB) (curPageNo hsB) (curRec hsB) = T"
      by (simp add: T_def vB fB pB rB)
    from scanNext_body_cases [where L = loop and fdiff = fd, OF inv step(2) ok]
    obtain hs1 bm1 where i1: "scan_inv hs1 bm1" and v1: "view bm1 = view bm"
      and s1: "same_scan hs hs1"
      and p1: "curPageNo hs1 = fst (snd T)" "curRec hs1 = snd (snd T)"
      and c: "if fst T then loop fd hs1 bm1 = Some y
               else (\<exists>rec. getRecord (the (view bm (filePtr hs, fst (snd T)))) (snd (snd T))
                              = (OK, Some rec)
                      \<and> (if matchRec fd hs rec
                          then y = (OK, Some (snd (snd T)), hs1, bm1)
                          else loop fd hs1 bm1 = Some y))"
      unfolding T_def Let_def by blast
    from scanNext_body_cases [where L = scanNext_loop and fdiff = fd,
        OF invB runB [unfolded scanNext_loop.simps [of fd hsB bmB]] okB]
    obtain hsB1 bmB1 where iB1: "scan_inv hsB1 bmB1" and vB1: "view bmB1 = view bm"
      and sB1: "same_scan hsB hsB1"
      and pB1: "curPageNo hsB1 = fst (snd T)" "curRec hsB1 = snd (snd T)"
      and cB: "if fst T then scanNext_loop fd hsB1 bmB1 = Some yB
               else (\<exists>rec. getRecord (the (view bm (filePtr hs, fst (snd T)))) (snd (snd T))
                              = (OK, Some rec)
                      \<and> (if matchRec fd hsB rec
                          then yB = (OK, Some (snd (snd T)), hsB1, bmB1)
                          else scanNext_loop fd hsB1 bmB1 = Some yB))"
      unfolding Let_def vB fB pB rB T_def [symmetric] by blast
    have s11: "same_scan hs1 hsB1"
      using same_scan_trans [OF same_scan_sym [OF s1] same_scan_trans [OF ss sB1]] .
    have rec_case: "fst (snd yB) = fst (snd y)"
      if "loop fd hs1 bm1 = Some y" "scanNext_loop fd hsB1 bmB1 = Some yB"
    proof -
      from vB1 v1 have vv: "view bmB1 = view bm1" by simp
      from pB1 p1 have pp: "curPageNo hsB1 = curPageNo hs1" "curRec hsB1 = curRec hs1"
        by simp_all
      from step(1) [OF that(1)] ok i1
      have "\<forall>hsB bmB yB. scanNext_loop fd hsB bmB = Some yB \<longrightarrow> fst yB = OK \<longrightarrow>
          scan_inv hsB bmB \<longrightarrow> view bmB = view bm1 \<longrightarrow> same_scan hs1 hsB \<longrightarrow>
          curPageNo hsB = curPageNo hs1 \<longrightarrow> curRec hsB = curRec hs1 \<longrightarrow>
          fst (snd yB) = fst (snd y)" by blast
      from this [rule_format, OF that(2) okB iB1 vv s11 pp] show ?thesis .
    qed
    show "fst (snd yB) = fst (snd y)"
    proof (cases "fst T")
      case True
      with c cB rec_case show ?thesis by simp
    next
      case False
      with c obtain rec where g: "getRecord (the (view bm (filePtr hs, fst (snd T)))) (snd (snd T))
                              = (OK, Some rec)"
        and m: "if matchRec fd hs rec then y = (OK, Some (snd (snd T)), hs1, bm1)
                else loop fd hs1 bm1 = Some y" by auto
      from False cB g
      have mB: "if matchRec fd hsB rec then yB = (OK, Some (snd (snd T)), hsB1, bmB1)
                else scanNext_loop fd hsB1 bmB1 = Some yB" by auto
      from matchRec_same_scan [OF ss] have "matchRec fd hsB rec = matchRec fd hs rec" by simp
      with m mB rec_case show ?thesis by (auto split: if_splits)
    qed
  qed
qed


section \<open>The mark/reset law\<close>


lemma scanNext_with_cursor:
  "scan_inv hs bm \<Longrightarrow> scanNext fd hs bm = scanNext_loop fd hs bm"
  by (auto simp: scan_inv_def scanNext_def scanNext_start_def)

lemma scanNext_inv:
  assumes "scanNext fd hs bm = Some (OK, rid, hs1, bm1)" and "scan_inv hs bm"
  shows "scan_inv hs1 bm1 \<and> view bm1 = view bm \<and> same_scan hs hs1"
  using scanNext_loop_inv [of fd hs bm "(OK, rid, hs1, bm1)"] assms
  by (simp add: scanNext_with_cursor)

lemma scanCalls_inv:
  "scanCalls fd n hs bm = Some (rs, hs1, bm1) \<Longrightarrow> \<forall>x\<in>set rs. fst x = OK \<Longrightarrow>
   scan_inv hs bm \<Longrightarrow>
   scan_inv hs1 bm1 \<and> view bm1 = view bm \<and> same_scan hs hs1"
proof (induction n arbitrary: hs bm rs)
  case 0
  then show ?case by simp
next
  case (Suc n)
  from Suc.prems(1) obtain st rid hsa bma rs' where
    a: "scanNext fd hs bm = Some (st, rid, hsa, bma)"
    and b: "scanCalls fd n hsa bma = Some (rs', hs1, bm1)"
    and rs: "rs = (st, rid) # rs'"
    by (auto split: option.splits)
  from Suc.prems(2) rs have st: "st = OK" and ok': "\<forall>x\<in>set rs'. fst x = OK" by simp_all
  from scanNext_inv [OF a [unfolded st] Suc.prems(3)]
  have ia: "scan_inv hsa bma" and va: "view bma = view bm" and sa: "same_scan hs hsa"
    by simp_all
  from Suc.IH [OF b ok' ia]
  have "scan_inv hs1 bm1" "view bm1 = view bma" "same_scan hsa hs1" by simp_all
  with va sa show ?case by (auto intro: same_scan_trans)
qed

lemma resetScan_inv:
  assumes inv: "scan_inv hs bm" and r: "resetScan hs bm = Some (OK, hs2, bm2)"
  shows "scan_inv hs2 bm2 \<and> view bm2 = view bm \<and> same_scan hs hs2
         \<and> curPageNo hs2 = markedPageNo hs \<and> curRec hs2 = markedRec hs"
proof (cases "markedPageNo hs = curPageNo hs")
  case True
  with r have "hs2 = hs\<lparr>curRec := markedRec hs\<rparr>" "bm2 = bm" by (simp_all add: resetScan_def)
  with inv True show ?thesis by (simp add: scan_inv_def same_scan_def)
next
  case False
  from inv obtain cp where cp: "curPage hs = Some cp" by (auto simp: scan_inv_def)
  obtain ust bm1 where
    u: "unPinPage (filePtr hs) (curPageNo hs) (curDirtyFlag hs) bm = (ust, bm1)"
    by (cases "unPinPage (filePtr hs) (curPageNo hs) (curDirtyFlag hs) bm")
  note m = move_cursor [OF inv u]
  from r False cp u m(1) obtain pgo where
    rd: "readPage (filePtr hs) (markedPageNo hs) bm1 = Some (OK, pgo, bm2)"
    and h2: "hs2 = (case pgo of None \<Rightarrow> hs\<lparr>curPageNo := markedPageNo hs, curRec := markedRec hs\<rparr>
                    | Some fr \<Rightarrow> hs\<lparr>curPageNo := markedPageNo hs, curRec := markedRec hs,
                                    curPage := Some fr\<rparr>)\<lparr>curDirtyFlag := False\<rparr>"
    by (auto simp: resetScan_def Let_def split: option.splits if_splits)
  from m(2) [OF rd] obtain k where k: "pgo = Some k" and pi: "pool_inv bm2"
    and v: "view bm2 = view bm"
    and cu: "cursor_inv (filePtr hs) (markedPageNo hs) k False bm2" by blast
  from h2 k have h2': "hs2 = hs\<lparr>curPageNo := markedPageNo hs, curRec := markedRec hs,
                                curPage := Some k, curDirtyFlag := False\<rparr>" by simp
  have "scan_inv hs2 bm2" using pi cu by (simp add: scan_inv_def h2')
  with v show ?thesis by (simp add: h2' same_scan_def)
qed

lemma markScan_inv:
  "scan_inv hs bm \<Longrightarrow> scan_inv (snd (markScan hs)) bm"
  by (simp add: scan_inv_def markScan_def)

lemma markScan_fields:
  "markedPageNo (snd (markScan hs)) = curPageNo hs"
  "markedRec (snd (markScan hs)) = curRec hs"
  "curPageNo (snd (markScan hs)) = curPageNo hs"
  "curRec (snd (markScan hs)) = curRec hs"
  by (simp_all add: markScan_def)

lemma mark_reset_same:
  assumes inv: "scan_inv hs0 bm"
    and mk: "markedPageNo hs0 = curPageNo hs0" "markedRec hs0 = curRec hs0"
    and first: "scanNext fd hs0 bm = Some (OK, rid1, hsa, bma)"
    and rest: "scanCalls fd n hsa bma = Some (rs, hs1, bm1)" "\<forall>x\<in>set rs. fst x = OK"
    and reset: "resetScan hs1 bm1 = Some (OK, hs2, bm2)"
    and last: "scanNext fd hs2 bm2 = Some (OK, rid, hs3, bm3)"
  shows "rid = rid1"
proof -
  from scanNext_inv [OF first inv]
  have ia: "scan_inv hsa bma" and va: "view bma = view bm" and sa: "same_scan hs0 hsa"
    by simp_all
  from scanCalls_inv [OF rest ia]
  have i1: "scan_inv hs1 bm1" and v1: "view bm1 = view bma" and s1: "same_scan hsa hs1"
    by simp_all
  from resetScan_inv [OF i1 reset]
  have i2: "scan_inv hs2 bm2" and v2: "view bm2 = view bm1" and s2: "same_scan hs1 hs2"
    and p2: "curPageNo hs2 = markedPageNo hs1" "curRec hs2 = markedRec hs1" by simp_all
  have s02: "same_scan hs0 hs2"
    using same_scan_trans [OF sa same_scan_trans [OF s1 s2]] .
  from sa s1 have "markedPageNo hs1 = markedPageNo hs0" "markedRec hs1 = markedRec hs0"
    by (simp_all add: same_scan_def)
  with p2 mk have pp: "curPageNo hs2 = curPageNo hs0" "curRec hs2 = curRec hs0" by simp_all
  from v2 v1 va have vv: "view bm2 = view bm" by simp
  from first inv have A: "scanNext_loop fd hs0 bm = Some (OK, rid1, hsa, bma)"
    by (simp add: scanNext_with_cursor)
  from last i2 have B: "scanNext_loop fd hs2 bm2 = Some (OK, rid, hs3, bm3)"
    by (simp add: scanNext_with_cursor)
  from scanNext_loop_determined [OF A, rule_format, OF _ inv B _ i2 vv s02 pp]
  show ?thesis by simp
qed

lemma scan_open_inv: "scan_inv scan_open bm_open"
  by (auto simp: scan_inv_def pool_inv_def wf_bufs_def coherent_def pins_nonneg_def
      clean_pool_def cursor_inv_def scan_open_def bm_open_def dh_def less_Suc_eq
      numeral_3_eq_3 split: if_splits)

text \<open>
  C9, as stated, fails for a scan without cursor page. \<open>scan_ended\<close> is the scan
  \<open>scan_open\<close> after \<open>endScan\<close>: \<open>curPage\<close> is null and \<open>curPageNo\<close> is 0. \<open>markScan\<close> records
  page 0 and the null RID. The first \<open>scanNext\<close> pins the first data page, page 2, and
  returns RID (2, 1). \<open>resetScan\<close> finds the marked page number different from the current
  one, unpins page 2 and reads page 0 of the file, all with status \<open>OK\<close>; the next \<open>scanNext\<close>
  returns \<open>OK\<close> with RID (0, 0), the first record of page 0.
\<close>

theorem mark_reset_without_cursor_counterexample:
  "curPage scan_ended = None
   \<and> mark_reset_run no_fdiff 1 scan_ended bm_ended
       = Some ([(OK, Some (RID 2 1))], OK, OK, Some (RID 0 0))
   \<and> Some (RID 0 0) \<noteq> snd (hd [(OK, Some (RID 2 1))])"
  by code_simp

text \<open>
  C9, amended: the scan holds a cursor page when \<open>markScan\<close> is called, in a consistent
  pool (\<open>scan_inv\<close>: the pool is well formed and coherent, pin counts are not negative, a
  frame that may be replaced without a write has the content of its page on disk, and
  the cursor page is pinned in the frame \<open>curPage\<close> points to). After \<open>markScan\<close>, then
  \<open>k \<ge> 1\<close> calls of \<open>scanNext\<close> that all return \<open>OK\<close>, then a \<open>resetScan\<close> that returns \<open>OK\<close>, a
  \<open>scanNext\<close> that returns \<open>OK\<close> returns the RID that the first \<open>scanNext\<close> after the mark
  returned.
\<close>

theorem mark_reset_law:
  assumes "scan_inv hs bm" and "0 < k"
    and "mark_reset_run fd k hs bm = Some (rs, OK, OK, rid)"
    and "\<forall>x\<in>set rs. fst x = OK"
  shows "rid = snd (hd rs)"
proof -
  let ?hs0 = "snd (markScan hs)"
  from assms(2) obtain n where k: "k = Suc n" by (cases k) simp_all
  from assms(3) obtain hs1 bm1 hs2 bm2 hs3 bm3 where
    c: "scanCalls fd k ?hs0 bm = Some (rs, hs1, bm1)"
    and r: "resetScan hs1 bm1 = Some (OK, hs2, bm2)"
    and l: "scanNext fd hs2 bm2 = Some (OK, rid, hs3, bm3)"
    by (auto simp: mark_reset_run_def split: option.splits)
  from c k obtain st rid1 hsa bma rs' where
    a: "scanNext fd ?hs0 bm = Some (st, rid1, hsa, bma)"
    and b: "scanCalls fd n hsa bma = Some (rs', hs1, bm1)"
    and rs: "rs = (st, rid1) # rs'"
    by (auto split: option.splits)
  from assms(4) rs have st: "st = OK" and ok': "\<forall>x\<in>set rs'. fst x = OK" by simp_all
  from mark_reset_same [OF markScan_inv [OF assms(1)] _ _ a [unfolded st] b ok' r l]
  have "rid = rid1" by (simp add: markScan_fields)
  with rs show ?thesis by simp
qed

theorem mark_reset_law_witness:
  "scan_inv scan_open bm_open \<and> 0 < (2::nat)
   \<and> mark_reset_run no_fdiff 2 scan_open bm_open
       = Some ([(OK, Some (RID 2 0)), (OK, Some (RID 2 1))], OK, OK, Some (RID 2 0))
   \<and> map fst [(OK, Some (RID 2 0)), (OK, Some (RID 2 1))] = [OK, OK]
   \<and> Some (RID 2 0) = snd (hd [(OK, Some (RID 2 0)), (OK, Some (RID 2 1))])"
proof -
  have r: "mark_reset_run no_fdiff 2 scan_open bm_open
       = Some ([(OK, Some (RID 2 0)), (OK, Some (RID 2 1))], OK, OK, Some (RID 2 0))"
    by code_simp
  from mark_reset_law [OF scan_open_inv _ r] scan_open_inv r show ?thesis by simp
qed

end
